theory Spec2Isabelle
  imports Complex_Main "HOL-Library.Multiset" "HOL-Library.Sublist"
begin

section \<open>Data model\<close>

text \<open>
  The repository holds two listings of the same utility in \<open>main.go\<close>. The first one
  (lines 1-119) stops on an operating-system signal read from the channel \<open>stop\<close>; the
  second one (lines 121-262) stops on the cancellation of the context \<open>ctx\<close>. Both declare
  the same two structs. Definitions that belong to the first listing carry the suffix
  \<open>_sig\<close>, those of the second listing the suffix \<open>_ctx\<close>.
\<close>

record CheckResult =
  Success :: bool

record TestResult =
  Results :: "CheckResult list"

text \<open>
  The pair \<open>(resp, err)\<close> that \<open>http.Get\<close> returns: either \<open>err != nil\<close>, or a response
  with its \<open>StatusCode\<close>.
\<close>

datatype http_result = TransportError | Response int

definition StatusOK :: int where
  "StatusOK = 200"

section \<open>Goroutines, channel and wait group\<close>

text \<open>
  A goroutine running \<open>performCheck\<close> is at one of these places:
  \<^item> \<open>AtGet\<close>: inside \<open>http.Get\<close> (lines 33 and 153);
  \<^item> \<open>AtSendErr\<close>: before \<open>results <- CheckResult{Success: false}\<close> (lines 36 and 156);
  \<^item> \<open>AtSelect success\<close>: before the \<open>select\<close> on \<open>ctx.Done()\<close> (line 163, second
    listing only), with the local variable \<open>success\<close>;
  \<^item> \<open>AtSend success\<close>: before \<open>results <- CheckResult{Success: success}\<close> (lines 43
    and 170);
  \<^item> \<open>AtDone sent cb\<close>: the body has returned and the deferred \<open>wg.Done()\<close> is
    pending;
  \<^item> \<open>Exited sent cb\<close>: the goroutine is gone;
  \<^item> \<open>Unwound\<close>: the send has panicked on the closed channel and the deferred
    \<open>wg.Done()\<close> has run while the panic unwound the goroutine; the runtime is about to
    end the process.
  The two arguments of \<open>AtDone\<close> and \<open>Exited\<close> are history: the value the goroutine
  wrote to \<open>results\<close>, if any, and whether it called \<open>resp.Body.Close()\<close>.
\<close>

datatype probe =
    AtGet
  | AtSendErr
  | AtSelect bool
  | AtSend bool
  | AtDone "CheckResult option" bool
  | Exited "CheckResult option" bool
  | Unwound

text \<open>
  The places of \<open>runTests\<close>. \<open>Loop i\<close> is the loop head with counter \<open>i\<close>; \<open>Select i\<close> and
  \<open>Sleep i\<close> are the \<open>select\<close> statement and \<open>time.Sleep(interval)\<close> of iteration \<open>i\<close>;
  \<open>CancelWait\<close>, \<open>CancelClose\<close> and \<open>CancelDrain\<close> are the statements of the
  cancellation branch of the \<open>select\<close>; \<open>Wait\<close>, \<open>Close\<close> and \<open>Drain\<close> are the statements
  after the loop. \<open>Finished r\<close> is the state after \<open>runTests\<close> has returned: \<open>r\<close> is the
  \<open>TestResult\<close> it returned (second listing) or built, printed and saved (first listing,
  whose \<open>runTests\<close> returns nothing), and \<open>None\<close> when it returned without one.
\<close>

datatype opc =
    Loop nat
  | Select nat
  | Sleep nat
  | CancelWait
  | CancelClose
  | CancelDrain
  | Wait
  | Close
  | Drain
  | Finished "TestResult option"

text \<open>
  The shared state of one run: the place of \<open>runTests\<close>, the goroutines launched so far
  in launch order, the buffer of the channel \<open>results\<close> and whether it is closed, the
  counter of the wait group, whether \<open>ctx.Done()\<close> is closed, whether the channel \<open>stop\<close>
  (capacity 1) holds a signal, and whether a panic has ended the process. The capacity of \<open>results\<close> is \<open>numChecks\<close>, a parameter of the steps below.
  \<open>numChecks\<close> is a natural number: with a negative one \<open>make(chan CheckResult, numChecks)\<close>
  panics before anything else happens.
\<close>

record state =
  orch :: opc
  probes :: "probe list"
  chan_buf :: "CheckResult list"
  chan_closed :: bool
  wg :: nat
  ctx_done :: bool
  stop :: bool
  panicked :: bool

definition init :: "bool \<Rightarrow> state" where
  "init cancelled =
     \<lparr>orch = Loop 0, probes = [], chan_buf = [], chan_closed = False, wg = 0,
      ctx_done = cancelled, stop = False, panicked = False\<rparr>"

text \<open>
  What the scheduler and the environment may do next: a step of \<open>runTests\<close>, a step of
  the goroutine launched as number \<open>k\<close>, the cancellation of the context, the delivery
  of SIGINT or SIGTERM.
\<close>

datatype event = Orch | Probe nat | Cancel | Signal

fun is_prog :: "event \<Rightarrow> bool" where
  "is_prog Orch = True"
| "is_prog (Probe k) = True"
| "is_prog Cancel = False"
| "is_prog Signal = False"

text \<open>
  A panic in goroutine \<open>k\<close> does not end the process at once: it first unwinds the
  goroutine and runs its deferred \<open>wg.Done()\<close> (lines 29 and 149), and the other
  goroutines go on until the runtime has ended the process. So the panic releases the
  wait group, and \<open>runTests\<close> may pass its \<open>wg.Wait()\<close> before the process ends. The
  step from \<open>Unwound\<close>, in \<open>performCheck\<close> below, is the end of the process.
\<close>

definition unwind :: "nat \<Rightarrow> state \<Rightarrow> state option" where
  "unwind k s =
     (if wg s = 0 then Some (s\<lparr>panicked := True\<rparr>)
      else Some (s\<lparr>wg := wg s - 1, probes := (probes s)[k := Unwound]\<rparr>))"

text \<open>
  A send of goroutine \<open>k\<close> on the buffered channel: it panics when the channel is closed,
  blocks (\<open>None\<close>) when the buffer is full, and appends otherwise.
\<close>

definition send :: "nat \<Rightarrow> CheckResult \<Rightarrow> nat \<Rightarrow> state \<Rightarrow> state option" where
  "send numChecks r k s =
     (if chan_closed s then unwind k s
      else if length (chan_buf s) < numChecks
      then Some (s\<lparr>chan_buf := chan_buf s @ [r], probes := (probes s)[k := AtDone (Some r) False]\<rparr>)
      else None)"

text \<open>The deferred \<open>wg.Done()\<close>: a counter that would become negative panics.\<close>

definition wg_done :: "nat \<Rightarrow> CheckResult option \<Rightarrow> bool \<Rightarrow> state \<Rightarrow> state option" where
  "wg_done k sent cb s =
     (if wg s = 0 then Some (s\<lparr>panicked := True\<rparr>)
      else Some (s\<lparr>wg := wg s - 1, probes := (probes s)[k := Exited sent cb]\<rparr>))"

text \<open>\<open>close(results)\<close>: closing a closed channel panics.\<close>

definition close_results :: "opc \<Rightarrow> state \<Rightarrow> state option" where
  "close_results next s =
     (if chan_closed s then Some (s\<lparr>panicked := True\<rparr>)
      else Some (s\<lparr>chan_closed := True, orch := next\<rparr>))"

text \<open>
  \<open>collectResults\<close> (lines 203-213), and the same loop at lines 73-79: the \<open>range\<close> over
  the channel appends every buffered value in order. The loop ends when the channel is
  closed and empty; on an open channel it blocks.
\<close>

fun range_append :: "CheckResult list \<Rightarrow> TestResult \<Rightarrow> TestResult" where
  "range_append [] testResult = testResult"
| "range_append (result # rest) testResult =
     range_append rest (testResult\<lparr>Results := Results testResult @ [result]\<rparr>)"

definition collectResults :: "CheckResult list \<Rightarrow> TestResult" where
  "collectResults ch = range_append ch \<lparr>Results = []\<rparr>"

definition collect :: "state \<Rightarrow> state option" where
  "collect s =
     (if chan_closed s
      then Some (s\<lparr>chan_buf := [], orch := Finished (Some (collectResults (chan_buf s)))\<rparr>)
      else None)"

section \<open>Second listing: cancellation by context\<close>

text \<open>
  One step of the goroutine \<open>k\<close> running \<open>performCheck\<close> (lines 148-172). The answer
  of the network to the request of goroutine \<open>k\<close> is \<open>net k\<close>. The request is taken to
  return: a goroutine can always leave \<open>AtGet\<close>, and a request that hangs for ever is
  not modelled. In the \<open>select\<close> the closed \<open>ctx.Done()\<close> wins over \<open>default\<close>.
\<close>

definition performCheck_ctx :: "nat \<Rightarrow> (nat \<Rightarrow> http_result) \<Rightarrow> nat \<Rightarrow> state \<Rightarrow> state option" where
  "performCheck_ctx numChecks net k s =
     (case probes s ! k of
        AtGet \<Rightarrow>
          (case net k of
             TransportError \<Rightarrow> Some (s\<lparr>probes := (probes s)[k := AtSendErr]\<rparr>)
           | Response code \<Rightarrow> Some (s\<lparr>probes := (probes s)[k := AtSelect (code = StatusOK)]\<rparr>))
      | AtSendErr \<Rightarrow> send numChecks \<lparr>Success = False\<rparr> k s
      | AtSelect success \<Rightarrow>
          (if ctx_done s then Some (s\<lparr>probes := (probes s)[k := AtDone None True]\<rparr>)
           else Some (s\<lparr>probes := (probes s)[k := AtSend success]\<rparr>))
      | AtSend success \<Rightarrow> send numChecks \<lparr>Success = success\<rparr> k s
      | AtDone sent cb \<Rightarrow> wg_done k sent cb s
      | Exited sent cb \<Rightarrow> None
      | Unwound \<Rightarrow> Some (s\<lparr>panicked := True\<rparr>))"

text \<open>One step of \<open>runTests\<close> (lines 174-201).\<close>

definition runTests_ctx :: "nat \<Rightarrow> state \<Rightarrow> state option" where
  "runTests_ctx numChecks s =
     (case orch s of
        Loop i \<Rightarrow>
          (if i < numChecks
           then Some (s\<lparr>wg := wg s + 1, probes := probes s @ [AtGet], orch := Select i\<rparr>)
           else Some (s\<lparr>orch := Wait\<rparr>))
      | Select i \<Rightarrow>
          (if ctx_done s then Some (s\<lparr>orch := CancelWait\<rparr>) else Some (s\<lparr>orch := Sleep i\<rparr>))
      | Sleep i \<Rightarrow> Some (s\<lparr>orch := Loop (i + 1)\<rparr>)
      | CancelWait \<Rightarrow> (if wg s = 0 then Some (s\<lparr>orch := CancelClose\<rparr>) else None)
      | CancelClose \<Rightarrow> close_results CancelDrain s
      | CancelDrain \<Rightarrow> collect s
      | Wait \<Rightarrow> (if wg s = 0 then Some (s\<lparr>orch := Close\<rparr>) else None)
      | Close \<Rightarrow> close_results Drain s
      | Drain \<Rightarrow> collect s
      | Finished r \<Rightarrow> None)"

definition step_ctx :: "nat \<Rightarrow> (nat \<Rightarrow> http_result) \<Rightarrow> event \<Rightarrow> state \<Rightarrow> state option" where
  "step_ctx numChecks net e s =
     (if panicked s then None
      else case e of
        Orch \<Rightarrow> runTests_ctx numChecks s
      | Probe k \<Rightarrow> (if k < length (probes s) then performCheck_ctx numChecks net k s else None)
      | Cancel \<Rightarrow> Some (s\<lparr>ctx_done := True\<rparr>)
      | Signal \<Rightarrow> Some (s\<lparr>stop := True\<rparr>))"

section \<open>First listing: cancellation by signal\<close>

text \<open>One step of the goroutine \<open>k\<close> running \<open>performCheck\<close> (lines 28-44).\<close>

definition performCheck_sig :: "nat \<Rightarrow> (nat \<Rightarrow> http_result) \<Rightarrow> nat \<Rightarrow> state \<Rightarrow> state option" where
  "performCheck_sig numChecks net k s =
     (case probes s ! k of
        AtGet \<Rightarrow>
          (case net k of
             TransportError \<Rightarrow> Some (s\<lparr>probes := (probes s)[k := AtSendErr]\<rparr>)
           | Response code \<Rightarrow> Some (s\<lparr>probes := (probes s)[k := AtSend (code = StatusOK)]\<rparr>))
      | AtSendErr \<Rightarrow> send numChecks \<lparr>Success = False\<rparr> k s
      | AtSelect success \<Rightarrow> None
      | AtSend success \<Rightarrow> send numChecks \<lparr>Success = success\<rparr> k s
      | AtDone sent cb \<Rightarrow> wg_done k sent cb s
      | Exited sent cb \<Rightarrow> None
      | Unwound \<Rightarrow> Some (s\<lparr>panicked := True\<rparr>))"

text \<open>
  One step of \<open>runTests\<close> (lines 46-106). The cancellation branch closes the channel
  first (line 62) and waits afterwards (line 63). The last step stands for lines 73-105:
  collecting, printing the percentage and saving the file.
\<close>

definition runTests_sig :: "nat \<Rightarrow> state \<Rightarrow> state option" where
  "runTests_sig numChecks s =
     (case orch s of
        Loop i \<Rightarrow>
          (if i < numChecks
           then Some (s\<lparr>wg := wg s + 1, probes := probes s @ [AtGet], orch := Sleep i\<rparr>)
           else Some (s\<lparr>orch := Wait\<rparr>))
      | Sleep i \<Rightarrow> Some (s\<lparr>orch := Select i\<rparr>)
      | Select i \<Rightarrow>
          (if stop s then Some (s\<lparr>stop := False, orch := CancelClose\<rparr>)
           else Some (s\<lparr>orch := Loop (i + 1)\<rparr>))
      | CancelClose \<Rightarrow> close_results CancelWait s
      | CancelWait \<Rightarrow> (if wg s = 0 then Some (s\<lparr>orch := Finished None\<rparr>) else None)
      | CancelDrain \<Rightarrow> None
      | Wait \<Rightarrow> (if wg s = 0 then Some (s\<lparr>orch := Close\<rparr>) else None)
      | Close \<Rightarrow> close_results Drain s
      | Drain \<Rightarrow> collect s
      | Finished r \<Rightarrow> None)"

definition step_sig :: "nat \<Rightarrow> (nat \<Rightarrow> http_result) \<Rightarrow> event \<Rightarrow> state \<Rightarrow> state option" where
  "step_sig numChecks net e s =
     (if panicked s then None
      else case e of
        Orch \<Rightarrow> runTests_sig numChecks s
      | Probe k \<Rightarrow> (if k < length (probes s) then performCheck_sig numChecks net k s else None)
      | Cancel \<Rightarrow> Some (s\<lparr>ctx_done := True\<rparr>)
      | Signal \<Rightarrow> Some (s\<lparr>stop := True\<rparr>))"

section \<open>Executions\<close>

text \<open>
  An execution is a list of events played from a state; it is \<open>None\<close> when one of its
  events cannot happen where it stands (the goroutine is blocked, has exited or was
  never launched, or the process has died).
\<close>

fun run :: "(event \<Rightarrow> state \<Rightarrow> state option) \<Rightarrow> event list \<Rightarrow> state \<Rightarrow> state option" where
  "run st [] s = Some s"
| "run st (e # es) s = (case st e s of None \<Rightarrow> None | Some s' \<Rightarrow> run st es s')"

text \<open>A state is quiescent when neither \<open>runTests\<close> nor any goroutine can take a step.\<close>

definition quiescent :: "(event \<Rightarrow> state \<Rightarrow> state option) \<Rightarrow> state \<Rightarrow> bool" where
  "quiescent st s \<longleftrightarrow>
     st Orch s = None \<and> (\<forall>k \<in> set [0..<length (probes s)]. st (Probe k) s = None)"

section \<open>Reporting\<close>

text \<open>
  The counting loop of lines 82-87 and 237-242. The counter is a Go \<open>int\<close>; it never
  exceeds the length of the slice, so it cannot overflow.
\<close>

fun count_loop :: "CheckResult list \<Rightarrow> nat \<Rightarrow> nat" where
  "count_loop [] successfulCount = successfulCount"
| "count_loop (result # rest) successfulCount =
     count_loop rest (if Success result then successfulCount + 1 else successfulCount)"

definition successfulCount :: "TestResult \<Rightarrow> nat" where
  "successfulCount testResult = count_loop (Results testResult) 0"

text \<open>
  The value of \<open>float64(a) / float64(b) * 100\<close> for two counts \<open>a\<close> and \<open>b\<close>. Go's
  floating-point division does not panic: \<open>0 / 0\<close> is NaN and \<open>a / 0\<close> with \<open>a > 0\<close> is
  \<open>+Inf\<close>, and both survive the multiplication by 100. A finite value is kept as the
  exact rational number; the rounding of \<open>float64\<close> is not modelled.
\<close>

datatype float64 = NaN | PosInf | Finite rat

definition percent :: "nat \<Rightarrow> nat \<Rightarrow> float64" where
  "percent a b =
     (if b = 0 then (if a = 0 then NaN else PosInf)
      else Finite (rat_of_nat a / rat_of_nat b * 100))"

text \<open>Line 244 divides by \<open>len(testResult.Results)\<close>, line 89 by \<open>numChecks\<close>.\<close>

definition successfulPercentage_ctx :: "TestResult \<Rightarrow> float64" where
  "successfulPercentage_ctx testResult =
     percent (successfulCount testResult) (length (Results testResult))"

definition successfulPercentage_sig :: "nat \<Rightarrow> TestResult \<Rightarrow> float64" where
  "successfulPercentage_sig numChecks testResult =
     percent (successfulCount testResult) numChecks"

text \<open>
  The verb \<open>%.2f\<close> of \<open>fmt.Printf\<close>: \<open>NaN\<close> and \<open>+Inf\<close> for the two special values, and
  otherwise the decimal numeral with two digits after the point, rounded to the nearest
  hundredth (ties to even).
\<close>

definition digit :: "nat \<Rightarrow> char" where
  "digit d = ''0123456789'' ! (d mod 10)"

fun decimal :: "nat \<Rightarrow> string" where
  "decimal n = (if n < 10 then [digit n] else decimal (n div 10) @ [digit (n mod 10)])"

declare decimal.simps [simp del]

definition hundredths :: "rat \<Rightarrow> int" where
  "hundredths q =
     (let f = \<lfloor>q * 100\<rfloor>; r = q * 100 - of_int f
      in if r < 1 / 2 then f else if 1 / 2 < r then f + 1 else if even f then f else f + 1)"

definition format_2f :: "float64 \<Rightarrow> string" where
  "format_2f x =
     (case x of
        NaN \<Rightarrow> ''NaN''
      | PosInf \<Rightarrow> ''+Inf''
      | Finite q \<Rightarrow>
          (let h = nat (hundredths \<bar>q\<bar>)
           in (if q < 0 then ''-'' else []) @ decimal (h div 100) @ ''.''
              @ [digit (h mod 100 div 10), digit (h mod 10)]))"

text \<open>
  The summary line of lines 90 and 245, without its Cyrillic label: the number, a
  percent sign and a line feed. Nothing guards the \<open>Printf\<close>: it runs for every
  \<open>TestResult\<close>.
\<close>

definition summary_ctx :: "TestResult \<Rightarrow> string" where
  "summary_ctx testResult = format_2f (successfulPercentage_ctx testResult) @ [CHR ''%'', CHR 0x0A]"

definition summary_sig :: "nat \<Rightarrow> TestResult \<Rightarrow> string" where
  "summary_sig numChecks testResult =
     format_2f (successfulPercentage_sig numChecks testResult) @ [CHR ''%'', CHR 0x0A]"

section \<open>The JSON document\<close>

text \<open>
  \<open>json.Marshal(testResult)\<close> (line 93) on the two structs with their tags
  \<open>json:"success"\<close> and \<open>json:"results"\<close>. The slice is made with \<open>make\<close>, so it is never
  \<open>nil\<close> and an empty one is written \<open>[]\<close>.
\<close>

fun join :: "string \<Rightarrow> string list \<Rightarrow> string" where
  "join sep [] = []"
| "join sep [x] = x"
| "join sep (x # y # ys) = x @ sep @ join sep (y # ys)"

definition marshal_bool :: "bool \<Rightarrow> string" where
  "marshal_bool b = (if b then ''true'' else ''false'')"

definition marshal_CheckResult :: "CheckResult \<Rightarrow> string" where
  \<open>marshal_CheckResult r = ''{"success":'' @ marshal_bool (Success r) @ ''}''\<close>

definition Marshal :: "TestResult \<Rightarrow> string" where
  \<open>Marshal testResult =
     ''{"results":['' @ join '','' (map marshal_CheckResult (Results testResult)) @ '']}''\<close>

text \<open>
  \<open>json.MarshalIndent(testResult, "", "    ")\<close> (line 248): the same document, each
  element on a line of its own, indented by four spaces for each level; an empty array
  stays \<open>[]\<close>.
\<close>

definition nl :: string where
  "nl = [CHR 0x0A]"

definition indent_CheckResult :: "CheckResult \<Rightarrow> string" where
  \<open>indent_CheckResult r =
     ''        {'' @ nl @ ''            "success": '' @ marshal_bool (Success r) @ nl
     @ ''        }''\<close>

definition MarshalIndent :: "TestResult \<Rightarrow> string" where
  \<open>MarshalIndent testResult =
     ''{'' @ nl @ ''    "results": ''
     @ (if Results testResult = [] then ''[]''
        else ''['' @ nl @ join ('','' @ nl) (map indent_CheckResult (Results testResult))
             @ nl @ ''    ]'')
     @ nl @ ''}''\<close>

text \<open>
  Modelled from the spec: the parsing of the document back into a \<open>TestResult\<close>, which
  the repository does not contain (it only writes the file). The reader accepts the
  shape \<open>{"results": [{"success": bool}, ...]}\<close> of the spec and, as JSON readers do,
  ignores white space between the tokens; no string of this document contains any.
\<close>

definition is_space :: "char \<Rightarrow> bool" where
  "is_space c \<longleftrightarrow> c = CHR '' '' \<or> c = CHR 0x0A \<or> c = CHR 0x0D \<or> c = CHR 0x09"

definition skip_space :: "string \<Rightarrow> string" where
  "skip_space doc = filter (\<lambda>c. \<not> is_space c) doc"

fun strip_prefix :: "string \<Rightarrow> string \<Rightarrow> string option" where
  "strip_prefix [] s = Some s"
| "strip_prefix (p # ps) [] = None"
| "strip_prefix (p # ps) (c # cs) = (if p = c then strip_prefix ps cs else None)"

definition parse_bool :: "string \<Rightarrow> (bool \<times> string) option" where
  "parse_bool s =
     (case strip_prefix ''true'' s of
        Some rest \<Rightarrow> Some (True, rest)
      | None \<Rightarrow>
          (case strip_prefix ''false'' s of
             Some rest \<Rightarrow> Some (False, rest)
           | None \<Rightarrow> None))"

definition parse_CheckResult :: "string \<Rightarrow> (CheckResult \<times> string) option" where
  \<open>parse_CheckResult s =
     (case strip_prefix ''{"success":'' s of
        None \<Rightarrow> None
      | Some s1 \<Rightarrow>
          (case parse_bool s1 of
             None \<Rightarrow> None
           | Some (b, s2) \<Rightarrow>
               (case strip_prefix ''}'' s2 of
                  None \<Rightarrow> None
                | Some s3 \<Rightarrow> Some (\<lparr>Success = b\<rparr>, s3))))\<close>

text \<open>
  The elements after the first one: a comma and an element, or the closing bracket. The
  first argument bounds the number of elements by the length of the input.
\<close>

fun parse_more :: "nat \<Rightarrow> string \<Rightarrow> (CheckResult list \<times> string) option" where
  "parse_more 0 s = None"
| "parse_more (Suc fuel) s =
     (case s of
        [] \<Rightarrow> None
      | c # rest \<Rightarrow>
          (if c = CHR '']'' then Some ([], rest)
           else if c = CHR '','' then
             (case parse_CheckResult rest of
                None \<Rightarrow> None
              | Some (r, rest') \<Rightarrow>
                  (case parse_more fuel rest' of
                     None \<Rightarrow> None
                   | Some (rs, rest'') \<Rightarrow> Some (r # rs, rest'')))
           else None))"

definition parse_array :: "string \<Rightarrow> (CheckResult list \<times> string) option" where
  "parse_array s =
     (case strip_prefix ''['' s of
        None \<Rightarrow> None
      | Some s1 \<Rightarrow>
          (case strip_prefix '']'' s1 of
             Some s2 \<Rightarrow> Some ([], s2)
           | None \<Rightarrow>
               (case parse_CheckResult s1 of
                  None \<Rightarrow> None
                | Some (r, s2) \<Rightarrow>
                    (case parse_more (Suc (length s2)) s2 of
                       None \<Rightarrow> None
                     | Some (rs, s3) \<Rightarrow> Some (r # rs, s3)))))"

definition Unmarshal :: "string \<Rightarrow> TestResult option" where
  \<open>Unmarshal doc =
     (case strip_prefix ''{"results":'' (skip_space doc) of
        None \<Rightarrow> None
      | Some s1 \<Rightarrow>
          (case parse_array s1 of
             None \<Rightarrow> None
           | Some (rs, s2) \<Rightarrow> (if s2 = ''}'' then Some \<lparr>Results = rs\<rparr> else None)))\<close>

section \<open>Invariants\<close>

text \<open>
  What a goroutine has written to the channel, whether the wait group still counts it,
  whether it has returned from \<open>performCheck\<close>, and whether it stands before one of the
  two send statements.
\<close>

fun sent_of :: "probe \<Rightarrow> CheckResult option" where
  "sent_of (AtDone sent cb) = sent"
| "sent_of (Exited sent cb) = sent"
| "sent_of p = None"

fun live :: "probe \<Rightarrow> bool" where
  "live (Exited sent cb) = False"
| "live Unwound = False"
| "live p = True"


fun at_send :: "probe \<Rightarrow> bool" where
  "at_send AtSendErr = True"
| "at_send (AtSend success) = True"
| "at_send p = False"

text \<open>The values written so far, in launch order of their writers.\<close>

definition emitted :: "probe list \<Rightarrow> CheckResult list" where
  "emitted ps = List.map_filter sent_of ps"

text \<open>
  The values that have reached the channel: its buffer, or the collected
  \<open>TestResult\<close> once \<open>runTests\<close> has drained the buffer.
\<close>

fun delivered_at :: "opc \<Rightarrow> CheckResult list \<Rightarrow> CheckResult list" where
  "delivered_at (Finished (Some t)) b = Results t"
| "delivered_at pc b = b"

definition delivered :: "state \<Rightarrow> CheckResult list" where
  "delivered s = delivered_at (orch s) (chan_buf s)"

text \<open>
  The local state of goroutine \<open>k\<close> agrees with what the network answered to it. In
  the second listing a goroutine may end without a value, and then the context is
  cancelled, the request had a response and its body is closed.
\<close>

definition resp_ok :: "(nat \<Rightarrow> http_result) \<Rightarrow> nat \<Rightarrow> bool \<Rightarrow> bool" where
  "resp_ok net k success =
     (case net k of TransportError \<Rightarrow> False | Response code \<Rightarrow> success = (code = StatusOK))"

definition done_ok :: "(nat \<Rightarrow> http_result) \<Rightarrow> bool \<Rightarrow> nat \<Rightarrow> CheckResult option \<Rightarrow> bool \<Rightarrow> bool" where
  "done_ok net c k sent cb =
     (case sent of
        Some r \<Rightarrow> \<not> cb \<and> Success r = (net k = Response StatusOK)
      | None \<Rightarrow> cb \<and> c \<and> net k \<noteq> TransportError)"

fun probe_ok_ctx :: "(nat \<Rightarrow> http_result) \<Rightarrow> bool \<Rightarrow> nat \<Rightarrow> probe \<Rightarrow> bool" where
  "probe_ok_ctx net c k AtGet = True"
| "probe_ok_ctx net c k AtSendErr = (net k = TransportError)"
| "probe_ok_ctx net c k (AtSelect success) = resp_ok net k success"
| "probe_ok_ctx net c k (AtSend success) = resp_ok net k success"
| "probe_ok_ctx net c k (AtDone sent cb) = done_ok net c k sent cb"
| "probe_ok_ctx net c k (Exited sent cb) = done_ok net c k sent cb"
| "probe_ok_ctx net c k Unwound = False"

fun probe_ok_sig :: "(nat \<Rightarrow> http_result) \<Rightarrow> bool \<Rightarrow> nat \<Rightarrow> probe \<Rightarrow> bool" where
  "probe_ok_sig net c k AtGet = True"
| "probe_ok_sig net c k AtSendErr = (net k = TransportError)"
| "probe_ok_sig net c k (AtSelect success) = False"
| "probe_ok_sig net c k (AtSend success) = resp_ok net k success"
| "probe_ok_sig net c k (AtDone sent cb) = done_ok net False k sent cb"
| "probe_ok_sig net c k (Exited sent cb) = done_ok net False k sent cb"
| "probe_ok_sig net c k Unwound = True"

text \<open>
  The bookkeeping both listings keep: the wait-group counter is the number of running
  goroutines, the delivered values are the written ones up to order, and every
  goroutine is in a state that agrees with the network.
\<close>

definition sync :: "(bool \<Rightarrow> nat \<Rightarrow> probe \<Rightarrow> bool) \<Rightarrow> state \<Rightarrow> bool" where
  "sync pok s \<longleftrightarrow>
     wg s = length (filter live (probes s))
     \<and> mset (delivered s) = mset (emitted (probes s))
     \<and> (\<forall>k < length (probes s). pok (ctx_done s) k (probes s ! k))"

definition orch_ok_ctx :: "nat \<Rightarrow> state \<Rightarrow> bool" where
  "orch_ok_ctx n s =
     (case orch s of
        Loop i \<Rightarrow> length (probes s) = i \<and> i \<le> n \<and> \<not> chan_closed s
      | Select i \<Rightarrow> length (probes s) = Suc i \<and> i < n \<and> \<not> chan_closed s
      | Sleep i \<Rightarrow> length (probes s) = Suc i \<and> i < n \<and> \<not> chan_closed s
      | CancelWait \<Rightarrow> length (probes s) \<le> n \<and> \<not> chan_closed s \<and> ctx_done s
      | CancelClose \<Rightarrow> length (probes s) \<le> n \<and> \<not> chan_closed s \<and> ctx_done s \<and> wg s = 0
      | CancelDrain \<Rightarrow> length (probes s) \<le> n \<and> chan_closed s \<and> ctx_done s \<and> wg s = 0
      | Wait \<Rightarrow> length (probes s) = n \<and> \<not> chan_closed s
      | Close \<Rightarrow> length (probes s) = n \<and> \<not> chan_closed s \<and> wg s = 0
      | Drain \<Rightarrow> length (probes s) = n \<and> chan_closed s \<and> wg s = 0
      | Finished r \<Rightarrow>
          r \<noteq> None \<and> length (probes s) \<le> n \<and> chan_closed s \<and> wg s = 0 \<and> chan_buf s = []
          \<and> (ctx_done s \<or> length (probes s) = n))"

definition inv_ctx :: "nat \<Rightarrow> (nat \<Rightarrow> http_result) \<Rightarrow> state \<Rightarrow> bool" where
  "inv_ctx n net s \<longleftrightarrow> \<not> panicked s \<and> orch_ok_ctx n s \<and> sync (probe_ok_ctx net) s"

definition orch_ok_sig :: "nat \<Rightarrow> state \<Rightarrow> bool" where
  "orch_ok_sig n s =
     (case orch s of
        Loop i \<Rightarrow> length (probes s) = i \<and> i \<le> n \<and> \<not> chan_closed s
      | Sleep i \<Rightarrow> length (probes s) = Suc i \<and> i < n \<and> \<not> chan_closed s
      | Select i \<Rightarrow> length (probes s) = Suc i \<and> i < n \<and> \<not> chan_closed s
      | CancelClose \<Rightarrow> length (probes s) \<le> n \<and> \<not> chan_closed s
      | CancelWait \<Rightarrow> length (probes s) \<le> n \<and> chan_closed s
      | CancelDrain \<Rightarrow> False
      | Wait \<Rightarrow> length (probes s) = n \<and> \<not> chan_closed s
      | Close \<Rightarrow> length (probes s) = n \<and> \<not> chan_closed s \<and> wg s = 0
      | Drain \<Rightarrow> length (probes s) = n \<and> chan_closed s \<and> wg s = 0
      | Finished r \<Rightarrow>
          length (probes s) \<le> n \<and> chan_closed s \<and> wg s = 0
          \<and> (r \<noteq> None \<longrightarrow> chan_buf s = [] \<and> length (probes s) = n))"

text \<open>
  In the first listing a send can panic only between the \<open>close\<close> of line 62 and the
  return of line 64, or after that return.
\<close>

definition unwound_ok :: "state \<Rightarrow> bool" where
  "unwound_ok s \<longleftrightarrow>
     (Unwound \<in> set (probes s) \<or> panicked s \<longrightarrow>
        orch s = CancelWait \<or> orch s = Finished None)"

definition inv_sig :: "nat \<Rightarrow> (nat \<Rightarrow> http_result) \<Rightarrow> state \<Rightarrow> bool" where
  "inv_sig n net s \<longleftrightarrow> orch_ok_sig n s \<and> sync (probe_ok_sig net) s \<and> unwound_ok s"

text \<open>The first listing as long as no signal has been delivered.\<close>

definition calm_sig :: "state \<Rightarrow> bool" where
  "calm_sig s \<longleftrightarrow>
     \<not> stop s \<and> orch s \<noteq> CancelClose \<and> orch s \<noteq> CancelWait \<and> orch s \<noteq> Finished None"

text \<open>
  An upper bound on the steps that \<open>runTests\<close> and its goroutines can still take: a
  goroutine takes at most four, an iteration of the loop three.
\<close>

fun probe_rem :: "probe \<Rightarrow> nat" where
  "probe_rem AtGet = 4"
| "probe_rem AtSendErr = 2"
| "probe_rem (AtSelect success) = 3"
| "probe_rem (AtSend success) = 2"
| "probe_rem (AtDone sent cb) = 1"
| "probe_rem (Exited sent cb) = 0"
| "probe_rem Unwound = 0"

fun orch_rem_ctx :: "nat \<Rightarrow> opc \<Rightarrow> nat" where
  "orch_rem_ctx n (Loop i) = 7 * (n - i) + 4"
| "orch_rem_ctx n (Select i) = 7 * (n - Suc i) + 6"
| "orch_rem_ctx n (Sleep i) = 7 * (n - Suc i) + 5"
| "orch_rem_ctx n (Finished r) = 0"
| "orch_rem_ctx n CancelDrain = 1"
| "orch_rem_ctx n Drain = 1"
| "orch_rem_ctx n CancelClose = 2"
| "orch_rem_ctx n Close = 2"
| "orch_rem_ctx n CancelWait = 3"
| "orch_rem_ctx n Wait = 3"

fun orch_rem_sig :: "nat \<Rightarrow> opc \<Rightarrow> nat" where
  "orch_rem_sig n (Loop i) = 7 * (n - i) + 4"
| "orch_rem_sig n (Sleep i) = 7 * (n - Suc i) + 6"
| "orch_rem_sig n (Select i) = 7 * (n - Suc i) + 5"
| "orch_rem_sig n (Finished r) = 0"
| "orch_rem_sig n CancelDrain = 0"
| "orch_rem_sig n Drain = 1"
| "orch_rem_sig n CancelWait = 1"
| "orch_rem_sig n CancelClose = 2"
| "orch_rem_sig n Close = 2"
| "orch_rem_sig n Wait = 3"

definition remaining :: "(opc \<Rightarrow> nat) \<Rightarrow> state \<Rightarrow> nat" where
  "remaining orch_rem s =
     (if panicked s then 0 else 1) + orch_rem (orch s) + sum_list (map probe_rem (probes s))"

text \<open>
  The second listing when the context is cancelled before \<open>runTests\<close> starts: the loop
  is left at its first \<open>select\<close>, so at most one goroutine exists, and that goroutine
  never reaches the send of line 170; it writes only after a transport error.
\<close>

fun quiet :: "(nat \<Rightarrow> http_result) \<Rightarrow> probe \<Rightarrow> bool" where
  "quiet net AtGet = True"
| "quiet net AtSendErr = (net 0 = TransportError)"
| "quiet net (AtSelect success) = True"
| "quiet net (AtSend success) = False"
| "quiet net (AtDone sent cb) = (sent \<noteq> None \<longrightarrow> net 0 = TransportError)"
| "quiet net (Exited sent cb) = (sent \<noteq> None \<longrightarrow> net 0 = TransportError)"
| "quiet net Unwound = True"

definition cancelled_ctx :: "nat \<Rightarrow> (nat \<Rightarrow> http_result) \<Rightarrow> state \<Rightarrow> bool" where
  "cancelled_ctx n net s \<longleftrightarrow>
     ctx_done s \<and> (\<forall>p \<in> set (probes s). quiet net p)
     \<and> (case orch s of
          Loop i \<Rightarrow> i = 0 \<and> probes s = []
        | Select i \<Rightarrow> i = 0 \<and> 0 < n \<and> length (probes s) = 1
        | Sleep i \<Rightarrow> False
        | CancelWait \<Rightarrow> 0 < n \<and> length (probes s) = 1
        | CancelClose \<Rightarrow> 0 < n \<and> length (probes s) = 1
        | CancelDrain \<Rightarrow> 0 < n \<and> length (probes s) = 1
        | Wait \<Rightarrow> n = 0 \<and> probes s = []
        | Close \<Rightarrow> n = 0 \<and> probes s = []
        | Drain \<Rightarrow> n = 0 \<and> probes s = []
        | Finished r \<Rightarrow> length (probes s) = min n 1)"

text \<open>
  A goroutine of the second listing that is on the way to dropping its response: still
  in \<open>http.Get\<close>, before the \<open>select\<close>, or behind the cancellation branch of lines
  165-167 with nothing written and the body closed.
\<close>

fun discards :: "probe \<Rightarrow> bool" where
  "discards AtGet = True"
| "discards (AtSelect success) = True"
| "discards (AtDone sent cb) = (sent = None \<and> cb)"
| "discards (Exited sent cb) = (sent = None \<and> cb)"
| "discards p = False"

section \<open>Evaluating executions\<close>

lemmas step_defs = step_sig_def step_ctx_def runTests_sig_def runTests_ctx_def
  performCheck_sig_def performCheck_ctx_def send_def unwind_def wg_done_def close_results_def
  collect_def
  collectResults_def init_def StatusOK_def

subsection \<open>Lists of goroutines\<close>

lemma range_append_Results: "Results (range_append ch t) = Results t @ ch"
  by (induction ch arbitrary: t) auto

lemma collectResults_Results [simp]: "Results (collectResults ch) = ch"
  by (simp add: collectResults_def range_append_Results)

lemma update_split:
  assumes "k < length ps"
  obtains as bs where "ps = as @ ps ! k # bs" and "ps[k := p] = as @ p # bs"
  using assms id_take_nth_drop [of k ps] upd_conv_take_nth_drop [of k ps p] by blast

lemma emitted_Nil [simp]: "emitted [] = []"
  by (simp add: emitted_def)

lemma emitted_Cons [simp]:
  "emitted (p # ps) = (case sent_of p of None \<Rightarrow> emitted ps | Some r \<Rightarrow> r # emitted ps)"
  by (simp add: emitted_def split: option.splits)

lemma emitted_append [simp]: "emitted (ps @ qs) = emitted ps @ emitted qs"
  by (induction ps) (auto split: option.splits)

lemma live_update_same:
  assumes "k < length ps" "live (ps ! k)" "live p"
  shows "length (filter live (ps[k := p])) = length (filter live ps)"
proof -
  obtain as bs where "ps = as @ ps ! k # bs" and "ps[k := p] = as @ p # bs"
    using assms(1) by (rule update_split)
  then have "filter live ps = filter live as @ ps ! k # filter live bs"
    and "filter live (ps[k := p]) = filter live as @ p # filter live bs"
    using assms(2,3) by (metis filter.simps(2) filter_append)+
  then show ?thesis by simp
qed

lemma live_update_exit:
  assumes "k < length ps" "live (ps ! k)" "\<not> live p"
  shows "Suc (length (filter live (ps[k := p]))) = length (filter live ps)"
proof -
  obtain as bs where "ps = as @ ps ! k # bs" and "ps[k := p] = as @ p # bs"
    using assms(1) by (rule update_split)
  then have "filter live ps = filter live as @ ps ! k # filter live bs"
    and "filter live (ps[k := p]) = filter live as @ filter live bs"
    using assms(2,3) by (metis filter.simps(2) filter_append)+
  then show ?thesis by simp
qed

lemma live_pos:
  assumes "k < length ps" "live (ps ! k)"
  shows "0 < length (filter live ps)"
proof -
  have "ps ! k \<in> set (filter live ps)" using assms by simp
  then show ?thesis by (cases "filter live ps") auto
qed

lemma live_ex:
  assumes "length (filter live ps) \<noteq> 0"
  shows "\<exists>k < length ps. live (ps ! k)"
proof -
  from assms obtain p where "p \<in> set (filter live ps)"
    by (cases "filter live ps") auto
  then have "p \<in> set ps" "live p" by simp_all
  then show ?thesis by (auto simp: in_set_conv_nth)
qed

lemma emitted_update_same:
  assumes "k < length ps" "sent_of p = sent_of (ps ! k)"
  shows "emitted (ps[k := p]) = emitted ps"
proof -
  obtain as bs where a: "ps = as @ ps ! k # bs" and b: "ps[k := p] = as @ p # bs"
    using assms(1) by (rule update_split)
  have "emitted (as @ p # bs) = emitted (as @ ps ! k # bs)"
    using assms(2) by simp
  then show ?thesis using a b by simp
qed

lemma emitted_update_send:
  assumes "k < length ps" "sent_of (ps ! k) = None" "sent_of p = Some r"
  shows "mset (emitted (ps[k := p])) = add_mset r (mset (emitted ps))"
proof -
  obtain as bs where a: "ps = as @ ps ! k # bs" and b: "ps[k := p] = as @ p # bs"
    using assms(1) by (rule update_split)
  have "mset (emitted (as @ p # bs)) = add_mset r (mset (emitted (as @ ps ! k # bs)))"
    using assms(2,3) by simp
  then show ?thesis using a b by simp
qed

lemma emitted_length: "length (emitted ps) \<le> length ps"
  by (induction ps) (auto split: option.splits)

lemma emitted_less:
  assumes "k < length ps" "sent_of (ps ! k) = None"
  shows "length (emitted ps) < length ps"
proof -
  obtain as bs where a: "ps = as @ ps ! k # bs"
    using assms(1) by (rule update_split)
  have "length (emitted (as @ ps ! k # bs)) < length (as @ ps ! k # bs)"
    using assms(2) emitted_length [of as] emitted_length [of bs] by simp
  then show ?thesis using a by simp
qed

lemma emitted_all:
  "\<forall>k < length ps. sent_of (ps ! k) = Some (f k) \<Longrightarrow> emitted ps = map f [0..<length ps]"
proof (induction ps rule: rev_induct)
  case Nil
  then show ?case by simp
next
  case (snoc p ps)
  have "\<forall>k < length ps. sent_of (ps ! k) = Some (f k)"
  proof (intro allI impI)
    fix k
    assume k: "k < length ps"
    then have "k < length (ps @ [p])" by simp
    with snoc.prems have "sent_of ((ps @ [p]) ! k) = Some (f k)" by blast
    then show "sent_of (ps ! k) = Some (f k)" using k by (simp add: nth_append)
  qed
  then have "emitted ps = map f [0..<length ps]" by (rule snoc.IH)
  moreover have "length ps < length (ps @ [p])" by simp
  with snoc.prems have "sent_of ((ps @ [p]) ! length ps) = Some (f (length ps))" by blast
  then have "sent_of p = Some (f (length ps))" by simp
  ultimately show ?case by simp
qed

lemma probe_rem_update:
  assumes "k < length ps"
  shows "sum_list (map probe_rem (ps[k := p])) + probe_rem (ps ! k)
         = sum_list (map probe_rem ps) + probe_rem p"
proof -
  obtain as bs where a: "ps = as @ ps ! k # bs" and b: "ps[k := p] = as @ p # bs"
    using assms by (rule update_split)
  have "sum_list (map probe_rem (as @ p # bs)) + probe_rem (ps ! k)
        = sum_list (map probe_rem (as @ ps ! k # bs)) + probe_rem p"
    by simp
  then show ?thesis using a b by simp
qed

lemma all_nth_update:
  assumes "\<forall>j < length ps. Q j (ps ! j)" "Q k p"
  shows "\<forall>j < length (ps[k := p]). Q j (ps[k := p] ! j)"
proof (intro allI impI)
  fix j
  assume "j < length (ps[k := p])"
  then have j: "j < length ps" by simp
  show "Q j (ps[k := p] ! j)"
  proof (cases "j = k")
    case True
    with j assms(2) show ?thesis by simp
  next
    case False
    with j assms(1) show ?thesis by simp
  qed
qed

subsection \<open>Executions\<close>

lemma run_append:
  "run st (es @ fs) s = (case run st es s of None \<Rightarrow> None | Some s' \<Rightarrow> run st fs s')"
  by (induction es arbitrary: s) (auto split: option.splits)

lemma run_invariant:
  assumes "\<And>e s s'. st e s = Some s' \<Longrightarrow> P s \<Longrightarrow> P s'"
  shows "run st es s = Some s' \<Longrightarrow> P s \<Longrightarrow> P s'"
proof (induction es arbitrary: s)
  case Nil
  then show ?case by simp
next
  case (Cons e es)
  then show ?case using assms by (auto split: option.splits)
qed

lemma run_invariant_on:
  assumes "\<And>e s s'. e \<in> E \<Longrightarrow> st e s = Some s' \<Longrightarrow> P s \<Longrightarrow> P s'"
  shows "run st es s = Some s' \<Longrightarrow> set es \<subseteq> E \<Longrightarrow> P s \<Longrightarrow> P s'"
proof (induction es arbitrary: s)
  case Nil
  then show ?case by simp
next
  case (Cons e es)
  then show ?case using assms by (auto split: option.splits)
qed

subsection \<open>The bookkeeping is kept by every goroutine step\<close>

lemma delivered_updates [simp]:
  "delivered (s\<lparr>probes := ps\<rparr>) = delivered s"
  "delivered (s\<lparr>wg := w\<rparr>) = delivered s"
  "delivered (s\<lparr>ctx_done := c\<rparr>) = delivered s"
  "delivered (s\<lparr>stop := b\<rparr>) = delivered s"
  "delivered (s\<lparr>chan_closed := b\<rparr>) = delivered s"
  "delivered (s\<lparr>panicked := b\<rparr>) = delivered s"
  by (simp_all add: delivered_def)

lemma sync_updates [simp]:
  "sync pok (s\<lparr>stop := b\<rparr>) = sync pok s"
  "sync pok (s\<lparr>chan_closed := b\<rparr>) = sync pok s"
  "sync pok (s\<lparr>panicked := b\<rparr>) = sync pok s"
  by (simp_all add: sync_def)

lemma sync_wg_pos:
  assumes "sync pok s" "k < length (probes s)" "live (probes s ! k)"
  shows "wg s \<noteq> 0"
  using assms live_pos [of k "probes s"] by (simp add: sync_def)

lemma sync_move:
  assumes sy: "sync pok s" and k: "k < length (probes s)"
    and at: "sent_of (probes s ! k) = None" "live (probes s ! k)"
    and p: "sent_of p = None" "live p" "pok (ctx_done s) k p"
  shows "sync pok (s\<lparr>probes := (probes s)[k := p]\<rparr>)"
proof -
  let ?s' = "s\<lparr>probes := (probes s)[k := p]\<rparr>"
  have 3: "wg ?s' = length (filter live (probes ?s'))"
    using sy k at(2) p(2) live_update_same [of k "probes s" p] by (simp add: sync_def)
  have 4: "mset (delivered ?s') = mset (emitted (probes ?s'))"
    using sy k at(1) p(1) emitted_update_same [of k "probes s" p] by (simp add: sync_def)
  have 5: "\<forall>j < length (probes ?s'). pok (ctx_done ?s') j (probes ?s' ! j)"
    using sy p(3) all_nth_update [of "probes s" "pok (ctx_done s)" k p] by (simp add: sync_def)
  show ?thesis using 3 4 5 by (simp add: sync_def)
qed

lemma sync_send:
  assumes sy: "sync pok s" and k: "k < length (probes s)"
    and at: "sent_of (probes s ! k) = None" "live (probes s ! k)"
    and del: "\<And>b. delivered_at (orch s) b = b"
    and ok: "pok (ctx_done s) k (AtDone (Some r) False)"
  shows "sync pok (s\<lparr>chan_buf := chan_buf s @ [r], probes := (probes s)[k := AtDone (Some r) False]\<rparr>)"
proof -
  let ?s' = "s\<lparr>chan_buf := chan_buf s @ [r], probes := (probes s)[k := AtDone (Some r) False]\<rparr>"
  have 3: "wg ?s' = length (filter live (probes ?s'))"
    using sy k at(2) live_update_same [of k "probes s" "AtDone (Some r) False"]
    by (simp add: sync_def)
  have "delivered ?s' = chan_buf s @ [r]" and "delivered s = chan_buf s"
    using del by (simp_all add: delivered_def)
  then have 4: "mset (delivered ?s') = mset (emitted (probes ?s'))"
    using sy k at(1) emitted_update_send [of k "probes s" "AtDone (Some r) False" r]
    by (simp add: sync_def)
  have 5: "\<forall>j < length (probes ?s'). pok (ctx_done ?s') j (probes ?s' ! j)"
    using sy ok all_nth_update [of "probes s" "pok (ctx_done s)" k] by (simp add: sync_def)
  show ?thesis using 3 4 5 by (simp add: sync_def)
qed

lemma sync_exit:
  assumes sy: "sync pok s" and k: "k < length (probes s)"
    and at: "probes s ! k = AtDone sent cb"
    and ok: "pok (ctx_done s) k (Exited sent cb)"
  shows "sync pok (s\<lparr>wg := wg s - 1, probes := (probes s)[k := Exited sent cb]\<rparr>)"
proof -
  let ?s' = "s\<lparr>wg := wg s - 1, probes := (probes s)[k := Exited sent cb]\<rparr>"
  have lv: "live (probes s ! k)" using at by simp
  have 3: "wg ?s' = length (filter live (probes ?s'))"
    using sy k lv live_update_exit [of k "probes s" "Exited sent cb"] by (simp add: sync_def)
  have 4: "mset (delivered ?s') = mset (emitted (probes ?s'))"
    using sy k at emitted_update_same [of k "probes s" "Exited sent cb"] by (simp add: sync_def)
  have 5: "\<forall>j < length (probes ?s'). pok (ctx_done ?s') j (probes ?s' ! j)"
    using sy ok all_nth_update [of "probes s" "pok (ctx_done s)" k] by (simp add: sync_def)
  show ?thesis using 3 4 5 by (simp add: sync_def)
qed


subsection \<open>Invariant of the second listing\<close>

lemma probe_ok_ctx_mono: "probe_ok_ctx net c k p \<Longrightarrow> probe_ok_ctx net True k p"
  by (cases p) (auto simp: done_ok_def split: option.splits)

lemma inv_ctx_init: "inv_ctx n net (init c)"
  by (simp add: inv_ctx_def sync_def orch_ok_ctx_def init_def delivered_def)

lemma orch_ok_ctx_busy:
  assumes "orch_ok_ctx n s" "wg s \<noteq> 0"
  shows "\<not> chan_closed s" and "delivered_at (orch s) b = b" and "length (probes s) \<le> n"
  using assms by (auto simp: orch_ok_ctx_def split: opc.splits)

lemma orch_ok_ctx_probe_step:
  assumes "orch_ok_ctx n s" "wg s \<noteq> 0" "orch s' = orch s"
    "length (probes s') = length (probes s)" "chan_closed s' = chan_closed s"
    "ctx_done s' = ctx_done s"
  shows "orch_ok_ctx n s'"
  using assms by (auto simp: orch_ok_ctx_def split: opc.splits)

lemma inv_ctx_cancel: "inv_ctx n net s \<Longrightarrow> inv_ctx n net (s\<lparr>ctx_done := True\<rparr>)"
  unfolding inv_ctx_def sync_def
  by (auto simp: orch_ok_ctx_def intro: probe_ok_ctx_mono split: opc.splits)

lemma inv_ctx_signal: "inv_ctx n net s \<Longrightarrow> inv_ctx n net (s\<lparr>stop := True\<rparr>)"
  unfolding inv_ctx_def by (auto simp: orch_ok_ctx_def split: opc.splits)

lemma inv_ctx_orch:
  assumes "runTests_ctx n s = Some s'" "inv_ctx n net s"
  shows "inv_ctx n net s'"
proof (cases "orch s")
  case (Loop i)
  with assms show ?thesis
    by (auto simp: runTests_ctx_def inv_ctx_def sync_def orch_ok_ctx_def delivered_def
        nth_append split: if_splits)
next
  case (Select i)
  with assms show ?thesis
    by (auto simp: runTests_ctx_def inv_ctx_def sync_def orch_ok_ctx_def delivered_def
        split: if_splits)
next
  case (Sleep i)
  with assms show ?thesis
    by (auto simp: runTests_ctx_def inv_ctx_def sync_def orch_ok_ctx_def delivered_def
        split: if_splits)
next
  case CancelWait
  with assms show ?thesis
    by (auto simp: runTests_ctx_def inv_ctx_def sync_def orch_ok_ctx_def delivered_def
        split: if_splits)
next
  case CancelClose
  with assms show ?thesis
    by (auto simp: runTests_ctx_def close_results_def inv_ctx_def sync_def orch_ok_ctx_def
        delivered_def split: if_splits)
next
  case CancelDrain
  with assms show ?thesis
    by (auto simp: runTests_ctx_def collect_def inv_ctx_def sync_def orch_ok_ctx_def
        delivered_def split: if_splits)
next
  case Wait
  with assms show ?thesis
    by (auto simp: runTests_ctx_def inv_ctx_def sync_def orch_ok_ctx_def delivered_def
        split: if_splits)
next
  case Close
  with assms show ?thesis
    by (auto simp: runTests_ctx_def close_results_def inv_ctx_def sync_def orch_ok_ctx_def
        delivered_def split: if_splits)
next
  case Drain
  with assms show ?thesis
    by (auto simp: runTests_ctx_def collect_def inv_ctx_def sync_def orch_ok_ctx_def
        delivered_def split: if_splits)
next
  case (Finished r)
  with assms show ?thesis by (simp add: runTests_ctx_def)
qed

lemma inv_ctx_probe:
  assumes st: "performCheck_ctx n net k s = Some s'" and k: "k < length (probes s)"
    and inv: "inv_ctx n net s"
  shows "inv_ctx n net s'"
proof -
  have sy: "sync (probe_ok_ctx net) s" and oo: "orch_ok_ctx n s" and np: "\<not> panicked s"
    using inv by (simp_all add: inv_ctx_def)
  have ok: "probe_ok_ctx net (ctx_done s) k (probes s ! k)"
    using sy k by (simp add: sync_def)
  have lv: "live (probes s ! k)"
    using st ok by (cases "probes s ! k") (simp_all add: performCheck_ctx_def)
  have wg: "wg s \<noteq> 0" using sy k lv by (rule sync_wg_pos)
  have opn: "\<not> chan_closed s" and del: "\<And>b. delivered_at (orch s) b = b"
    using oo wg orch_ok_ctx_busy [of n s] by simp_all
  have fin: "sync (probe_ok_ctx net) s' \<Longrightarrow> orch s' = orch s \<Longrightarrow>
      length (probes s') = length (probes s) \<Longrightarrow> chan_closed s' = chan_closed s \<Longrightarrow>
      ctx_done s' = ctx_done s \<Longrightarrow> panicked s' = panicked s \<Longrightarrow> inv_ctx n net s'"
    using np orch_ok_ctx_probe_step [OF oo wg, of s'] by (simp add: inv_ctx_def)
  show ?thesis
  proof (cases "probes s ! k")
    case AtGet
    show ?thesis
    proof (cases "net k")
      case TransportError
      with st AtGet have s': "s' = s\<lparr>probes := (probes s)[k := AtSendErr]\<rparr>"
        by (simp add: performCheck_ctx_def)
      have "sync (probe_ok_ctx net) s'"
        unfolding s' using AtGet TransportError by (intro sync_move [OF sy k]) simp_all
      then show ?thesis using s' by (intro fin) simp_all
    next
      case (Response code)
      with st AtGet have s': "s' = s\<lparr>probes := (probes s)[k := AtSelect (code = StatusOK)]\<rparr>"
        by (simp add: performCheck_ctx_def)
      have "sync (probe_ok_ctx net) s'"
        unfolding s' using AtGet Response
        by (intro sync_move [OF sy k]) (simp_all add: resp_ok_def)
      then show ?thesis using s' by (intro fin) simp_all
    qed
  next
    case AtSendErr
    with st opn have s': "s' = s\<lparr>chan_buf := chan_buf s @ [\<lparr>Success = False\<rparr>],
        probes := (probes s)[k := AtDone (Some \<lparr>Success = False\<rparr>) False]\<rparr>"
      by (simp add: performCheck_ctx_def send_def split: if_splits)
    have "sync (probe_ok_ctx net) s'"
      unfolding s' using AtSendErr ok del
      by (intro sync_send [OF sy k]) (simp_all add: done_ok_def)
    then show ?thesis using s' by (intro fin) simp_all
  next
    case (AtSelect success)
    show ?thesis
    proof (cases "ctx_done s")
      case True
      with st AtSelect have s': "s' = s\<lparr>probes := (probes s)[k := AtDone None True]\<rparr>"
        by (simp add: performCheck_ctx_def)
      have "net k \<noteq> TransportError" using ok AtSelect by (auto simp: resp_ok_def)
      then have "sync (probe_ok_ctx net) s'"
        unfolding s' using AtSelect True
        by (intro sync_move [OF sy k]) (simp_all add: done_ok_def)
      then show ?thesis using s' by (intro fin) simp_all
    next
      case False
      with st AtSelect have s': "s' = s\<lparr>probes := (probes s)[k := AtSend success]\<rparr>"
        by (simp add: performCheck_ctx_def)
      have "sync (probe_ok_ctx net) s'"
        unfolding s' using AtSelect ok by (intro sync_move [OF sy k]) simp_all
      then show ?thesis using s' by (intro fin) simp_all
    qed
  next
    case (AtSend success)
    with st opn have s': "s' = s\<lparr>chan_buf := chan_buf s @ [\<lparr>Success = success\<rparr>],
        probes := (probes s)[k := AtDone (Some \<lparr>Success = success\<rparr>) False]\<rparr>"
      by (simp add: performCheck_ctx_def send_def split: if_splits)
    have "success = (net k = Response StatusOK)"
      using ok AtSend by (auto simp: resp_ok_def split: http_result.splits)
    then have "sync (probe_ok_ctx net) s'"
      unfolding s' using AtSend del
      by (intro sync_send [OF sy k]) (simp_all add: done_ok_def)
    then show ?thesis using s' by (intro fin) simp_all
  next
    case (AtDone sent cb)
    with st wg have s': "s' = s\<lparr>wg := wg s - 1, probes := (probes s)[k := Exited sent cb]\<rparr>"
      by (simp add: performCheck_ctx_def wg_done_def)
    have "sync (probe_ok_ctx net) s'"
      unfolding s' using AtDone ok by (intro sync_exit [OF sy k]) simp_all
    moreover have "orch_ok_ctx n s'"
      using s' by (intro orch_ok_ctx_probe_step [OF oo wg]) simp_all
    ultimately show ?thesis using np s' by (simp add: inv_ctx_def)
  next
    case (Exited sent cb)
    with st show ?thesis by (simp add: performCheck_ctx_def)
  next
    case Unwound
    with ok show ?thesis by simp
  qed
qed

lemma inv_ctx_step:
  assumes "step_ctx n net e s = Some s'" "inv_ctx n net s"
  shows "inv_ctx n net s'"
proof (cases e)
  case Orch
  with assms show ?thesis by (auto simp: step_ctx_def split: if_splits intro: inv_ctx_orch)
next
  case (Probe k)
  with assms show ?thesis by (auto simp: step_ctx_def split: if_splits intro: inv_ctx_probe)
next
  case Cancel
  with assms show ?thesis by (auto simp: step_ctx_def split: if_splits intro: inv_ctx_cancel)
next
  case Signal
  with assms show ?thesis by (auto simp: step_ctx_def split: if_splits intro: inv_ctx_signal)
qed

lemma inv_ctx_run: "run (step_ctx n net) es (init c) = Some s \<Longrightarrow> inv_ctx n net s"
  using run_invariant [of "step_ctx n net" "inv_ctx n net" es "init c" s]
  by (blast intro: inv_ctx_step inv_ctx_init)

subsection \<open>Termination of the second listing\<close>

lemma run_remaining:
  assumes "\<And>e s s'. st e s = Some s' \<Longrightarrow> m s' + (if is_prog e then 1 else 0) \<le> (m s :: nat)"
  shows "run st es s = Some s' \<Longrightarrow> m s' + length (filter is_prog es) \<le> m s"
proof (induction es arbitrary: s)
  case Nil
  then show ?case by simp
next
  case (Cons e es)
  then obtain s1 where 1: "st e s = Some s1" and 2: "run st es s1 = Some s'"
    by (auto split: option.splits)
  have "m s' + length (filter is_prog es) \<le> m s1" using 2 by (rule Cons.IH)
  moreover have "m s1 + (if is_prog e then 1 else 0) \<le> m s" using 1 by (rule assms)
  ultimately show ?case by (cases "is_prog e") simp_all
qed

lemma remaining_move:
  assumes "k < length (probes s)" "probe_rem p < probe_rem (probes s ! k)"
  shows "remaining f (s\<lparr>probes := (probes s)[k := p]\<rparr>) < remaining f s"
  using assms probe_rem_update [of k "probes s" p] by (simp add: remaining_def)

lemma remaining_send:
  assumes "k < length (probes s)" "send n r k s = Some s'" "at_send (probes s ! k)"
    and "\<not> panicked s"
  shows "remaining f s' < remaining f s"
proof -
  have "2 \<le> probe_rem (probes s ! k)" using assms(3) by (cases "probes s ! k") simp_all
  then show ?thesis
    using assms(1,2,4) probe_rem_update [of k "probes s" "AtDone (Some r) False"]
      probe_rem_update [of k "probes s" Unwound]
    by (auto simp: send_def unwind_def remaining_def split: if_splits)
qed

lemma remaining_exit:
  assumes "k < length (probes s)" "wg_done k sent cb s = Some s'" "probes s ! k = AtDone sent cb"
    and "\<not> panicked s"
  shows "remaining f s' < remaining f s"
  using assms probe_rem_update [of k "probes s" "Exited sent cb"]
  by (auto simp: wg_done_def remaining_def split: if_splits)

lemma remaining_ctx_probe:
  assumes st: "performCheck_ctx n net k s = Some s'" and k: "k < length (probes s)"
    and np: "\<not> panicked s"
  shows "remaining f s' < remaining f s"
proof (cases "probes s ! k")
  case AtGet
  show ?thesis
  proof (cases "net k")
    case TransportError
    with st AtGet have "s' = s\<lparr>probes := (probes s)[k := AtSendErr]\<rparr>"
      by (simp add: performCheck_ctx_def)
    then show ?thesis using remaining_move [OF k, of AtSendErr f] AtGet by simp
  next
    case (Response code)
    with st AtGet have "s' = s\<lparr>probes := (probes s)[k := AtSelect (code = StatusOK)]\<rparr>"
      by (simp add: performCheck_ctx_def)
    then show ?thesis using remaining_move [OF k, of "AtSelect (code = StatusOK)" f] AtGet by simp
  qed
next
  case AtSendErr
  with st have "send n \<lparr>Success = False\<rparr> k s = Some s'" by (simp add: performCheck_ctx_def)
  then show ?thesis using AtSendErr np by (intro remaining_send [OF k]) simp_all
next
  case (AtSelect success)
  show ?thesis
  proof (cases "ctx_done s")
    case True
    with st AtSelect have "s' = s\<lparr>probes := (probes s)[k := AtDone None True]\<rparr>"
      by (simp add: performCheck_ctx_def)
    then show ?thesis using remaining_move [OF k, of "AtDone None True" f] AtSelect by simp
  next
    case False
    with st AtSelect have "s' = s\<lparr>probes := (probes s)[k := AtSend success]\<rparr>"
      by (simp add: performCheck_ctx_def)
    then show ?thesis using remaining_move [OF k, of "AtSend success" f] AtSelect by simp
  qed
next
  case (AtSend success)
  with st have "send n \<lparr>Success = success\<rparr> k s = Some s'" by (simp add: performCheck_ctx_def)
  then show ?thesis using AtSend np by (intro remaining_send [OF k]) simp_all
next
  case (AtDone sent cb)
  with st have "wg_done k sent cb s = Some s'" by (simp add: performCheck_ctx_def)
  then show ?thesis using AtDone np by (intro remaining_exit [OF k]) simp_all
next
  case (Exited sent cb)
  with st show ?thesis by (simp add: performCheck_ctx_def)
next
  case Unwound
  with st np show ?thesis by (auto simp: performCheck_ctx_def remaining_def)
qed

lemma remaining_ctx_orch:
  assumes "runTests_ctx n s = Some s'" "\<not> panicked s"
  shows "remaining (orch_rem_ctx n) s' < remaining (orch_rem_ctx n) s"
proof (cases "orch s")
  case (Loop i)
  show ?thesis
  proof (cases "i < n")
    case True
    then have "n - i = Suc (n - Suc i)" by simp
    with assms Loop True show ?thesis
      by (auto simp: runTests_ctx_def remaining_def)
  next
    case False
    with assms Loop show ?thesis by (auto simp: runTests_ctx_def remaining_def)
  qed
next
  case (Finished r)
  with assms show ?thesis by (simp add: runTests_ctx_def)
qed (use assms in \<open>auto simp: runTests_ctx_def remaining_def close_results_def collect_def
      split: if_splits\<close>)

lemma remaining_ctx_step:
  assumes "step_ctx n net e s = Some s'"
  shows "remaining (orch_rem_ctx n) s' + (if is_prog e then 1 else 0)
         \<le> remaining (orch_rem_ctx n) s"
proof (cases e)
  case Orch
  with assms show ?thesis
    using remaining_ctx_orch [of n s s'] by (auto simp: step_ctx_def split: if_splits)
next
  case (Probe k)
  with assms show ?thesis
    using remaining_ctx_probe [of n net k s s' "orch_rem_ctx n"]
    by (auto simp: step_ctx_def split: if_splits)
next
  case Cancel
  with assms show ?thesis by (auto simp: step_ctx_def remaining_def split: if_splits)
next
  case Signal
  with assms show ?thesis by (auto simp: step_ctx_def remaining_def split: if_splits)
qed

lemma run_ctx_bound:
  assumes "run (step_ctx n net) es (init c) = Some s"
  shows "length (filter is_prog es) \<le> 7 * n + 5"
proof -
  have "remaining (orch_rem_ctx n) s + length (filter is_prog es)
        \<le> remaining (orch_rem_ctx n) (init c)"
    using assms
      run_remaining [of "step_ctx n net" "remaining (orch_rem_ctx n)" es "init c" s]
      remaining_ctx_step [of n net]
    by blast
  then show ?thesis by (simp add: remaining_def init_def)
qed

subsection \<open>The second listing neither blocks nor loses a result\<close>

lemma probe_enabled_ctx:
  assumes inv: "inv_ctx n net s" and k: "k < length (probes s)" and lv: "live (probes s ! k)"
  shows "performCheck_ctx n net k s \<noteq> None"
proof -
  have sy: "sync (probe_ok_ctx net) s" and oo: "orch_ok_ctx n s"
    using inv by (simp_all add: inv_ctx_def)
  have wg: "wg s \<noteq> 0" using sy k lv by (rule sync_wg_pos)
  have opn: "\<not> chan_closed s" and del: "delivered s = chan_buf s"
    and len: "length (probes s) \<le> n"
    using oo wg orch_ok_ctx_busy [of n s] by (simp_all add: delivered_def)
  have room: "sent_of (probes s ! k) = None \<Longrightarrow> length (chan_buf s) < n"
  proof -
    assume "sent_of (probes s ! k) = None"
    then have "length (emitted (probes s)) < length (probes s)" using k by (intro emitted_less)
    moreover have "length (chan_buf s) = length (emitted (probes s))"
      using sy del by (metis sync_def size_mset)
    ultimately show ?thesis using len by simp
  qed
  show ?thesis
  proof (cases "probes s ! k")
    case AtGet
    then show ?thesis by (cases "net k") (simp_all add: performCheck_ctx_def)
  next
    case AtSendErr
    then show ?thesis using opn room by (simp add: performCheck_ctx_def send_def)
  next
    case (AtSelect success)
    then show ?thesis by (simp add: performCheck_ctx_def)
  next
    case (AtSend success)
    then show ?thesis using opn room by (simp add: performCheck_ctx_def send_def)
  next
    case (AtDone sent cb)
    then show ?thesis by (simp add: performCheck_ctx_def wg_done_def)
  next
    case (Exited sent cb)
    with lv show ?thesis by simp
  next
    case Unwound
    with lv show ?thesis by simp
  qed
qed

lemma quiescent_probe:
  assumes "quiescent st s" "k < length (probes s)"
  shows "st (Probe k) s = None"
  using assms by (simp add: quiescent_def)

lemma ctx_progress:
  assumes inv: "inv_ctx n net s" and q: "quiescent (step_ctx n net) s"
  shows "\<exists>t. orch s = Finished (Some t)"
proof -
  have sy: "sync (probe_ok_ctx net) s" and oo: "orch_ok_ctx n s" and np: "\<not> panicked s"
    using inv by (simp_all add: inv_ctx_def)
  have o: "runTests_ctx n s = None" using q np by (simp add: quiescent_def step_ctx_def)
  have "wg s = 0"
  proof (rule ccontr)
    assume "wg s \<noteq> 0"
    then obtain k where k: "k < length (probes s)" and lv: "live (probes s ! k)"
      using sy live_ex [of "probes s"] by (auto simp: sync_def)
    have "step_ctx n net (Probe k) s = None" using q k by (rule quiescent_probe)
    then have "performCheck_ctx n net k s = None" using np k by (simp add: step_ctx_def)
    then show False using probe_enabled_ctx [OF inv k lv] by simp
  qed
  then show ?thesis
    using o oo
    by (cases "orch s")
       (auto simp: runTests_ctx_def orch_ok_ctx_def close_results_def collect_def
        split: if_splits)
qed

lemma all_exited:
  assumes "sync pok s" "wg s = 0" "Unwound \<notin> set (probes s)"
  shows "\<forall>k < length (probes s). \<exists>sent cb. probes s ! k = Exited sent cb"
proof (intro allI impI)
  fix k
  assume k: "k < length (probes s)"
  have "\<not> live (probes s ! k)"
    using assms(1,2) k live_pos [of k "probes s"] by (auto simp: sync_def)
  moreover have "probes s ! k \<noteq> Unwound" using assms(3) k by (metis nth_mem)
  ultimately show "\<exists>sent cb. probes s ! k = Exited sent cb"
    by (cases "probes s ! k") simp_all
qed

lemma ctx_no_unwound:
  assumes "sync (probe_ok_ctx net) s"
  shows "Unwound \<notin> set (probes s)"
proof
  assume "Unwound \<in> set (probes s)"
  then obtain k where "k < length (probes s)" "probes s ! k = Unwound"
    by (auto simp: in_set_conv_nth)
  then show False using assms by (auto simp: sync_def)
qed

lemma inv_ctx_finished:
  assumes inv: "inv_ctx n net s" and fin: "orch s = Finished r"
  shows "\<exists>t. r = Some t \<and> mset (Results t) = mset (emitted (probes s))"
    and "\<forall>k < length (probes s). \<exists>sent cb. probes s ! k = Exited sent cb"
    and "length (probes s) \<le> n" and "\<not> ctx_done s \<Longrightarrow> length (probes s) = n"
proof -
  have sy: "sync (probe_ok_ctx net) s" and oo: "orch_ok_ctx n s"
    using inv by (simp_all add: inv_ctx_def)
  show "\<exists>t. r = Some t \<and> mset (Results t) = mset (emitted (probes s))"
    using sy oo fin by (cases r) (auto simp: orch_ok_ctx_def sync_def delivered_def)
  have "wg s = 0" using oo fin by (simp add: orch_ok_ctx_def)
  then show "\<forall>k < length (probes s). \<exists>sent cb. probes s ! k = Exited sent cb"
    using all_exited [OF sy _ ctx_no_unwound [OF sy]] by blast
  show "length (probes s) \<le> n" using oo fin by (simp add: orch_ok_ctx_def)
  show "\<not> ctx_done s \<Longrightarrow> length (probes s) = n" using oo fin by (simp add: orch_ok_ctx_def)
qed

lemma step_ctx_no_cancel:
  "step_ctx n net e s = Some s' \<Longrightarrow> e \<noteq> Cancel \<Longrightarrow> ctx_done s' = ctx_done s"
  by (cases e)
     (auto simp: step_ctx_def runTests_ctx_def performCheck_ctx_def send_def unwind_def
        wg_done_def close_results_def collect_def
      split: if_splits opc.splits probe.splits http_result.splits)

lemma run_ctx_no_cancel:
  "run (step_ctx n net) es s = Some s' \<Longrightarrow> Cancel \<notin> set es \<Longrightarrow> ctx_done s' = ctx_done s"
proof (induction es arbitrary: s)
  case Nil
  then show ?case by simp
next
  case (Cons e es)
  then show ?case using step_ctx_no_cancel [of n net e s] by (auto split: option.splits)
qed

lemma CheckResult_eq: "(r :: CheckResult) = \<lparr>Success = b\<rparr> \<longleftrightarrow> Success r = b"
  by (cases r) simp

lemma emitted_undisturbed:
  assumes sy: "sync (probe_ok_ctx net) s" and nc: "\<not> ctx_done s"
    and ex: "\<forall>k < length (probes s). \<exists>sent cb. probes s ! k = Exited sent cb"
  shows "emitted (probes s)
         = map (\<lambda>k. \<lparr>Success = (net k = Response StatusOK)\<rparr>) [0..<length (probes s)]"
proof (rule emitted_all, intro allI impI)
  fix k
  assume k: "k < length (probes s)"
  then obtain sent cb where e: "probes s ! k = Exited sent cb" using ex by blast
  have "probe_ok_ctx net (ctx_done s) k (probes s ! k)" using sy k by (simp add: sync_def)
  then have "done_ok net False k sent cb" using e nc by simp
  then show "sent_of (probes s ! k) = Some \<lparr>Success = (net k = Response StatusOK)\<rparr>"
    using e by (cases sent) (simp_all add: done_ok_def CheckResult_eq)
qed

lemma runTests_ctx_undisturbed:
  assumes run: "run (step_ctx n net) es (init False) = Some s" and nc: "Cancel \<notin> set es"
    and q: "quiescent (step_ctx n net) s"
  shows "\<exists>t. orch s = Finished (Some t) \<and>
           mset (Results t)
           = mset (map (\<lambda>k. \<lparr>Success = (net k = Response StatusOK)\<rparr>) [0..<n])"
proof -
  have inv: "inv_ctx n net s" using run by (rule inv_ctx_run)
  then obtain t where t: "orch s = Finished (Some t)" using q ctx_progress by blast
  have c: "\<not> ctx_done s" using run_ctx_no_cancel [OF run nc] by (simp add: init_def)
  have "mset (Results t) = mset (emitted (probes s))"
    using inv_ctx_finished(1) [OF inv t] by simp
  moreover have "length (probes s) = n" using inv_ctx_finished(4) [OF inv t c] .
  moreover have "emitted (probes s)
      = map (\<lambda>k. \<lparr>Success = (net k = Response StatusOK)\<rparr>) [0..<length (probes s)]"
    using inv c inv_ctx_finished(2) [OF inv t] by (intro emitted_undisturbed) (simp add: inv_ctx_def)
  ultimately show ?thesis using t by simp
qed

subsection \<open>Invariant of the first listing\<close>

lemma inv_sig_init: "inv_sig n net (init c)"
  by (simp add: inv_sig_def sync_def orch_ok_sig_def unwound_ok_def init_def delivered_def)

lemma orch_ok_sig_busy:
  assumes "orch_ok_sig n s" "wg s \<noteq> 0"
  shows "delivered_at (orch s) b = b" and "length (probes s) \<le> n"
  using assms by (auto simp: orch_ok_sig_def split: opc.splits)

lemma orch_ok_sig_probe_step:
  assumes "orch_ok_sig n s" "wg s \<noteq> 0" "orch s' = orch s"
    "length (probes s') = length (probes s)" "chan_closed s' = chan_closed s"
    "panicked s' = panicked s"
  shows "orch_ok_sig n s'"
  using assms by (auto simp: orch_ok_sig_def split: opc.splits)

lemma orch_ok_sig_panic:
  assumes "orch_ok_sig n s" "wg s \<noteq> 0" "chan_closed s"
  shows "orch_ok_sig n (s\<lparr>panicked := True\<rparr>)"
  using assms by (auto simp: orch_ok_sig_def split: opc.splits)

lemma probe_ok_sig_mono: "probe_ok_sig net c k p \<Longrightarrow> probe_ok_sig net True k p"
  by (cases p) simp_all

lemma inv_sig_cancel: "inv_sig n net s \<Longrightarrow> inv_sig n net (s\<lparr>ctx_done := True\<rparr>)"
  unfolding inv_sig_def sync_def unwound_ok_def
  by (auto simp: orch_ok_sig_def intro: probe_ok_sig_mono split: opc.splits)

lemma inv_sig_signal: "inv_sig n net s \<Longrightarrow> inv_sig n net (s\<lparr>stop := True\<rparr>)"
  unfolding inv_sig_def unwound_ok_def by (auto simp: orch_ok_sig_def split: opc.splits)

lemma inv_sig_orch:
  assumes "runTests_sig n s = Some s'" "inv_sig n net s" "\<not> panicked s"
  shows "inv_sig n net s'"
proof (cases "orch s")
  case (Loop i)
  with assms show ?thesis
    by (auto simp: runTests_sig_def inv_sig_def sync_def orch_ok_sig_def unwound_ok_def delivered_def
        nth_append split: if_splits)
next
  case (Select i)
  with assms show ?thesis
    by (auto simp: runTests_sig_def inv_sig_def sync_def orch_ok_sig_def unwound_ok_def delivered_def
        split: if_splits)
next
  case (Sleep i)
  with assms show ?thesis
    by (auto simp: runTests_sig_def inv_sig_def sync_def orch_ok_sig_def unwound_ok_def delivered_def
        split: if_splits)
next
  case CancelWait
  with assms show ?thesis
    by (auto simp: runTests_sig_def inv_sig_def sync_def orch_ok_sig_def unwound_ok_def delivered_def
        split: if_splits)
next
  case CancelClose
  with assms show ?thesis
    by (auto simp: runTests_sig_def close_results_def inv_sig_def sync_def orch_ok_sig_def unwound_ok_def
        delivered_def split: if_splits)
next
  case CancelDrain
  with assms show ?thesis by (simp add: runTests_sig_def)
next
  case Wait
  with assms show ?thesis
    by (auto simp: runTests_sig_def inv_sig_def sync_def orch_ok_sig_def unwound_ok_def delivered_def
        split: if_splits)
next
  case Close
  with assms show ?thesis
    by (auto simp: runTests_sig_def close_results_def inv_sig_def sync_def orch_ok_sig_def unwound_ok_def
        delivered_def split: if_splits)
next
  case Drain
  with assms show ?thesis
    by (auto simp: runTests_sig_def collect_def inv_sig_def sync_def orch_ok_sig_def unwound_ok_def
        delivered_def split: if_splits)
next
  case (Finished r)
  with assms show ?thesis by (simp add: runTests_sig_def)
qed

lemma orch_ok_sig_closed_busy:
  assumes "orch_ok_sig n s" "wg s \<noteq> 0" "chan_closed s"
  shows "orch s = CancelWait"
  using assms by (auto simp: orch_ok_sig_def split: opc.splits)

lemma orch_ok_sig_dead:
  assumes "orch_ok_sig n s" "orch s = CancelWait \<or> orch s = Finished None"
  shows "orch_ok_sig n (s\<lparr>panicked := True\<rparr>)"
  using assms by (auto simp: orch_ok_sig_def)

lemma unwound_ok_updates [simp]:
  "unwound_ok (s\<lparr>wg := w\<rparr>) = unwound_ok s"
  "unwound_ok (s\<lparr>chan_buf := b\<rparr>) = unwound_ok s"
  by (simp_all add: unwound_ok_def)

lemma unwound_ok_move:
  assumes "unwound_ok s" "p \<noteq> Unwound"
  shows "unwound_ok (s\<lparr>probes := (probes s)[k := p]\<rparr>)"
  using assms set_update_subset_insert [of "probes s" k p] by (auto simp: unwound_ok_def)

lemma sync_unwind:
  assumes sy: "sync pok s" and k: "k < length (probes s)"
    and at: "sent_of (probes s ! k) = None" "live (probes s ! k)"
    and ok: "pok (ctx_done s) k Unwound"
  shows "sync pok (s\<lparr>wg := wg s - 1, probes := (probes s)[k := Unwound]\<rparr>)"
proof -
  let ?s' = "s\<lparr>wg := wg s - 1, probes := (probes s)[k := Unwound]\<rparr>"
  have 3: "wg ?s' = length (filter live (probes ?s'))"
    using sy k at(2) live_update_exit [of k "probes s" Unwound] by (simp add: sync_def)
  have 4: "mset (delivered ?s') = mset (emitted (probes ?s'))"
    using sy k at(1) emitted_update_same [of k "probes s" Unwound] by (simp add: sync_def)
  have 5: "\<forall>j < length (probes ?s'). pok (ctx_done ?s') j (probes ?s' ! j)"
    using sy ok all_nth_update [of "probes s" "pok (ctx_done s)" k] by (simp add: sync_def)
  show ?thesis using 3 4 5 by (simp add: sync_def)
qed

lemma inv_sig_probe:
  assumes st: "performCheck_sig n net k s = Some s'" and k: "k < length (probes s)"
    and inv: "inv_sig n net s" and np: "\<not> panicked s"
  shows "inv_sig n net s'"
proof -
  have sy: "sync (probe_ok_sig net) s" and oo: "orch_ok_sig n s" and uo: "unwound_ok s"
    using inv by (simp_all add: inv_sig_def)
  have ok: "probe_ok_sig net (ctx_done s) k (probes s ! k)"
    using sy k by (simp add: sync_def)
  show ?thesis
  proof (cases "probes s ! k = Unwound")
    case True
    with st have s': "s' = s\<lparr>panicked := True\<rparr>" by (simp add: performCheck_sig_def)
    have "Unwound \<in> set (probes s)" using True k by (metis nth_mem)
    then have o: "orch s = CancelWait \<or> orch s = Finished None"
      using uo by (simp add: unwound_ok_def)
    then have "unwound_ok s'" unfolding s' by (simp add: unwound_ok_def)
    moreover have "orch_ok_sig n s'" unfolding s' using oo o by (rule orch_ok_sig_dead)
    ultimately show ?thesis using sy s' by (simp add: inv_sig_def)
  next
    case nu: False
    have lv: "live (probes s ! k)"
      using st nu by (cases "probes s ! k") (simp_all add: performCheck_sig_def)
    have wg: "wg s \<noteq> 0" using sy k lv by (rule sync_wg_pos)
    have del: "\<And>b. delivered_at (orch s) b = b"
      using oo wg orch_ok_sig_busy [of n s] by simp
    have fin: "sync (probe_ok_sig net) s' \<Longrightarrow> unwound_ok s' \<Longrightarrow> orch s' = orch s \<Longrightarrow>
        length (probes s') = length (probes s) \<Longrightarrow> chan_closed s' = chan_closed s \<Longrightarrow>
        panicked s' = panicked s \<Longrightarrow> inv_sig n net s'"
      using orch_ok_sig_probe_step [OF oo wg, of s'] by (simp add: inv_sig_def)
    have unw: "inv_sig n net (s\<lparr>wg := wg s - 1, probes := (probes s)[k := Unwound]\<rparr>)"
      if c: "chan_closed s" and u: "sent_of (probes s ! k) = None"
    proof -
      let ?s' = "s\<lparr>wg := wg s - 1, probes := (probes s)[k := Unwound]\<rparr>"
      have "orch s = CancelWait" using oo wg c by (rule orch_ok_sig_closed_busy)
      then have "unwound_ok ?s'" by (simp add: unwound_ok_def)
      moreover have "sync (probe_ok_sig net) ?s'"
        using sy k u lv by (rule sync_unwind) simp
      moreover have "orch_ok_sig n ?s'"
        by (rule orch_ok_sig_probe_step [OF oo wg]) simp_all
      ultimately show ?thesis by (simp add: inv_sig_def)
    qed
    show ?thesis
    proof (cases "probes s ! k")
      case AtGet
      show ?thesis
      proof (cases "net k")
        case TransportError
        with st AtGet have s': "s' = s\<lparr>probes := (probes s)[k := AtSendErr]\<rparr>"
          by (simp add: performCheck_sig_def)
        have "sync (probe_ok_sig net) s'"
          unfolding s' using AtGet TransportError by (intro sync_move [OF sy k]) simp_all
        moreover have "unwound_ok s'" unfolding s' using uo by (rule unwound_ok_move) simp
        ultimately show ?thesis using s' by (intro fin) simp_all
      next
        case (Response code)
        with st AtGet have s': "s' = s\<lparr>probes := (probes s)[k := AtSend (code = StatusOK)]\<rparr>"
          by (simp add: performCheck_sig_def)
        have "sync (probe_ok_sig net) s'"
          unfolding s' using AtGet Response
          by (intro sync_move [OF sy k]) (simp_all add: resp_ok_def)
        moreover have "unwound_ok s'" unfolding s' using uo by (rule unwound_ok_move) simp
        ultimately show ?thesis using s' by (intro fin) simp_all
      qed
    next
      case AtSendErr
      show ?thesis
      proof (cases "chan_closed s")
        case True
        with st AtSendErr wg
        have "s' = s\<lparr>wg := wg s - 1, probes := (probes s)[k := Unwound]\<rparr>"
          by (simp add: performCheck_sig_def send_def unwind_def)
        then show ?thesis using unw [OF True] AtSendErr by simp
      next
        case False
        with st AtSendErr have s': "s' = s\<lparr>chan_buf := chan_buf s @ [\<lparr>Success = False\<rparr>],
            probes := (probes s)[k := AtDone (Some \<lparr>Success = False\<rparr>) False]\<rparr>"
          by (simp add: performCheck_sig_def send_def split: if_splits)
        have "sync (probe_ok_sig net) s'"
          unfolding s' using AtSendErr ok del
          by (intro sync_send [OF sy k]) (simp_all add: done_ok_def)
        moreover have "unwound_ok
            (s\<lparr>probes := (probes s)[k := AtDone (Some \<lparr>Success = False\<rparr>) False]\<rparr>)"
          using uo by (rule unwound_ok_move) simp
        then have "unwound_ok s'" unfolding s' by (simp add: unwound_ok_def)
        ultimately show ?thesis using s' by (intro fin) simp_all
      qed
    next
      case (AtSelect success)
      with st show ?thesis by (simp add: performCheck_sig_def)
    next
      case (AtSend success)
      show ?thesis
      proof (cases "chan_closed s")
        case True
        with st AtSend wg
        have "s' = s\<lparr>wg := wg s - 1, probes := (probes s)[k := Unwound]\<rparr>"
          by (simp add: performCheck_sig_def send_def unwind_def)
        then show ?thesis using unw [OF True] AtSend by simp
      next
        case False
        with st AtSend have s': "s' = s\<lparr>chan_buf := chan_buf s @ [\<lparr>Success = success\<rparr>],
            probes := (probes s)[k := AtDone (Some \<lparr>Success = success\<rparr>) False]\<rparr>"
          by (simp add: performCheck_sig_def send_def split: if_splits)
        have "success = (net k = Response StatusOK)"
          using ok AtSend by (auto simp: resp_ok_def split: http_result.splits)
        then have "sync (probe_ok_sig net) s'"
          unfolding s' using AtSend del
          by (intro sync_send [OF sy k]) (simp_all add: done_ok_def)
        moreover have "unwound_ok
            (s\<lparr>probes := (probes s)[k := AtDone (Some \<lparr>Success = success\<rparr>) False]\<rparr>)"
          using uo by (rule unwound_ok_move) simp
        then have "unwound_ok s'" unfolding s' by (simp add: unwound_ok_def)
        ultimately show ?thesis using s' by (intro fin) simp_all
      qed
    next
      case (AtDone sent cb)
      with st wg have s': "s' = s\<lparr>wg := wg s - 1, probes := (probes s)[k := Exited sent cb]\<rparr>"
        by (simp add: performCheck_sig_def wg_done_def)
      have "sync (probe_ok_sig net) s'"
        unfolding s' using AtDone ok by (intro sync_exit [OF sy k]) simp_all
      moreover have "unwound_ok (s\<lparr>probes := (probes s)[k := Exited sent cb]\<rparr>)"
        using uo by (rule unwound_ok_move) simp
      then have "unwound_ok s'" unfolding s' by (simp add: unwound_ok_def)
      ultimately show ?thesis using s' by (intro fin) simp_all
    next
      case (Exited sent cb)
      with st show ?thesis by (simp add: performCheck_sig_def)
    next
      case Unwound
      with nu show ?thesis by simp
    qed
  qed
qed

lemma inv_sig_step:
  assumes "step_sig n net e s = Some s'" "inv_sig n net s"
  shows "inv_sig n net s'"
proof (cases e)
  case Orch
  with assms show ?thesis by (auto simp: step_sig_def split: if_splits intro: inv_sig_orch)
next
  case (Probe k)
  with assms show ?thesis by (auto simp: step_sig_def split: if_splits intro: inv_sig_probe)
next
  case Cancel
  with assms show ?thesis by (auto simp: step_sig_def split: if_splits intro: inv_sig_cancel)
next
  case Signal
  with assms show ?thesis by (auto simp: step_sig_def split: if_splits intro: inv_sig_signal)
qed

lemma inv_sig_run: "run (step_sig n net) es (init c) = Some s \<Longrightarrow> inv_sig n net s"
  using run_invariant [of "step_sig n net" "inv_sig n net" es "init c" s]
  by (blast intro: inv_sig_step inv_sig_init)

subsection \<open>The first listing without a signal\<close>

lemma calm_sig_step:
  assumes "step_sig n net e s = Some s'" "e \<noteq> Signal" "calm_sig s"
  shows "calm_sig s'"
proof (cases e)
  case Orch
  with assms show ?thesis
    by (cases "orch s")
       (auto simp: step_sig_def runTests_sig_def calm_sig_def close_results_def collect_def
        split: if_splits)
next
  case (Probe k)
  with assms show ?thesis
    by (cases "probes s ! k")
       (auto simp: step_sig_def performCheck_sig_def calm_sig_def send_def unwind_def
        wg_done_def split: if_splits http_result.splits)
next
  case Cancel
  with assms show ?thesis by (auto simp: step_sig_def calm_sig_def split: if_splits)
next
  case Signal
  with assms show ?thesis by simp
qed

lemma calm_sig_run:
  assumes "run (step_sig n net) es (init c) = Some s" "Signal \<notin> set es"
  shows "calm_sig s"
proof -
  have "set es \<subseteq> - {Signal}" using assms(2) by auto
  moreover have "calm_sig (init c)" by (simp add: calm_sig_def init_def)
  ultimately show ?thesis
    using assms(1)
      run_invariant_on [of "- {Signal}" "step_sig n net" calm_sig es "init c" s]
      calm_sig_step [of n net]
    by blast
qed

lemma calm_sig_open:
  assumes "inv_sig n net s" "calm_sig s"
  shows "\<not> panicked s" and "wg s \<noteq> 0 \<Longrightarrow> \<not> chan_closed s"
  using assms
  by (auto simp: inv_sig_def orch_ok_sig_def unwound_ok_def calm_sig_def split: opc.splits)

lemma probe_enabled_sig:
  assumes inv: "inv_sig n net s" and k: "k < length (probes s)" and lv: "live (probes s ! k)"
  shows "performCheck_sig n net k s \<noteq> None"
proof -
  have sy: "sync (probe_ok_sig net) s" and oo: "orch_ok_sig n s"
    using inv by (simp_all add: inv_sig_def)
  have wg: "wg s \<noteq> 0" using sy k lv by (rule sync_wg_pos)
  have del: "delivered s = chan_buf s" and len: "length (probes s) \<le> n"
    using oo wg orch_ok_sig_busy [of n s] by (simp_all add: delivered_def)
  have ok: "probe_ok_sig net (ctx_done s) k (probes s ! k)"
    using sy k by (simp add: sync_def)
  have room: "sent_of (probes s ! k) = None \<Longrightarrow> length (chan_buf s) < n"
  proof -
    assume "sent_of (probes s ! k) = None"
    then have "length (emitted (probes s)) < length (probes s)" using k by (intro emitted_less)
    moreover have "length (chan_buf s) = length (emitted (probes s))"
      using sy del by (metis sync_def size_mset)
    ultimately show ?thesis using len by simp
  qed
  show ?thesis
  proof (cases "probes s ! k")
    case AtGet
    then show ?thesis by (cases "net k") (simp_all add: performCheck_sig_def)
  next
    case AtSendErr
    then show ?thesis using room by (simp add: performCheck_sig_def send_def unwind_def)
  next
    case (AtSelect success)
    with ok show ?thesis by simp
  next
    case (AtSend success)
    then show ?thesis using room by (simp add: performCheck_sig_def send_def unwind_def)
  next
    case (AtDone sent cb)
    then show ?thesis by (simp add: performCheck_sig_def wg_done_def)
  next
    case (Exited sent cb)
    with lv show ?thesis by simp
  next
    case Unwound
    with lv show ?thesis by simp
  qed
qed

lemma sig_progress:
  assumes inv: "inv_sig n net s" and calm: "calm_sig s" and q: "quiescent (step_sig n net) s"
  shows "\<exists>t. orch s = Finished (Some t)"
proof -
  have sy: "sync (probe_ok_sig net) s" and oo: "orch_ok_sig n s"
    using inv by (simp_all add: inv_sig_def)
  have np: "\<not> panicked s" using inv calm by (rule calm_sig_open)
  have o: "runTests_sig n s = None" using q np by (simp add: quiescent_def step_sig_def)
  have "wg s = 0"
  proof (rule ccontr)
    assume "wg s \<noteq> 0"
    then obtain k where k: "k < length (probes s)" and lv: "live (probes s ! k)"
      using sy live_ex [of "probes s"] by (auto simp: sync_def)
    have "step_sig n net (Probe k) s = None" using q k by (rule quiescent_probe)
    then have "performCheck_sig n net k s = None" using np k by (simp add: step_sig_def)
    then show False using probe_enabled_sig [OF inv k lv] by simp
  qed
  then show ?thesis
    using o oo calm
    by (cases "orch s")
       (auto simp: runTests_sig_def orch_ok_sig_def calm_sig_def close_results_def collect_def
        split: if_splits)
qed

lemma inv_sig_finished:
  assumes inv: "inv_sig n net s" and fin: "orch s = Finished (Some t)"
  shows "mset (Results t) = mset (emitted (probes s))"
    and "\<forall>k < length (probes s). \<exists>sent cb. probes s ! k = Exited sent cb"
    and "length (probes s) = n"
proof -
  have sy: "sync (probe_ok_sig net) s" and oo: "orch_ok_sig n s"
    using inv by (simp_all add: inv_sig_def)
  show "mset (Results t) = mset (emitted (probes s))"
    using sy fin by (auto simp: sync_def delivered_def)
  have "wg s = 0" using oo fin by (simp add: orch_ok_sig_def)
  moreover have "Unwound \<notin> set (probes s)"
    using inv fin by (auto simp: inv_sig_def unwound_ok_def)
  ultimately show "\<forall>k < length (probes s). \<exists>sent cb. probes s ! k = Exited sent cb"
    using all_exited [OF sy] by blast
  show "length (probes s) = n" using oo fin by (simp add: orch_ok_sig_def)
qed

lemma emitted_sig:
  assumes sy: "sync (probe_ok_sig net) s"
    and ex: "\<forall>k < length (probes s). \<exists>sent cb. probes s ! k = Exited sent cb"
  shows "emitted (probes s)
         = map (\<lambda>k. \<lparr>Success = (net k = Response StatusOK)\<rparr>) [0..<length (probes s)]"
proof (rule emitted_all, intro allI impI)
  fix k
  assume k: "k < length (probes s)"
  then obtain sent cb where e: "probes s ! k = Exited sent cb" using ex by blast
  have "probe_ok_sig net (ctx_done s) k (probes s ! k)" using sy k by (simp add: sync_def)
  then have "done_ok net False k sent cb" using e by simp
  then show "sent_of (probes s ! k) = Some \<lparr>Success = (net k = Response StatusOK)\<rparr>"
    using e by (cases sent) (simp_all add: done_ok_def CheckResult_eq)
qed

lemma runTests_sig_undisturbed:
  assumes run: "run (step_sig n net) es (init c) = Some s" and nc: "Signal \<notin> set es"
    and q: "quiescent (step_sig n net) s"
  shows "\<exists>t. orch s = Finished (Some t) \<and>
           mset (Results t)
           = mset (map (\<lambda>k. \<lparr>Success = (net k = Response StatusOK)\<rparr>) [0..<n])"
proof -
  have inv: "inv_sig n net s" using run by (rule inv_sig_run)
  have calm: "calm_sig s" using run nc by (rule calm_sig_run)
  obtain t where t: "orch s = Finished (Some t)" using sig_progress [OF inv calm q] by blast
  have "mset (Results t) = mset (emitted (probes s))"
    using inv_sig_finished(1) [OF inv t] .
  moreover have "length (probes s) = n" using inv_sig_finished(3) [OF inv t] .
  moreover have "emitted (probes s)
      = map (\<lambda>k. \<lparr>Success = (net k = Response StatusOK)\<rparr>) [0..<length (probes s)]"
    using inv inv_sig_finished(2) [OF inv t] by (intro emitted_sig) (simp add: inv_sig_def)
  ultimately show ?thesis using t by simp
qed

subsection \<open>Termination of the first listing\<close>

lemma remaining_sig_probe:
  assumes st: "performCheck_sig n net k s = Some s'" and k: "k < length (probes s)"
    and np: "\<not> panicked s"
  shows "remaining f s' < remaining f s"
proof (cases "probes s ! k")
  case AtGet
  show ?thesis
  proof (cases "net k")
    case TransportError
    with st AtGet have "s' = s\<lparr>probes := (probes s)[k := AtSendErr]\<rparr>"
      by (simp add: performCheck_sig_def)
    then show ?thesis using remaining_move [OF k, of AtSendErr f] AtGet by simp
  next
    case (Response code)
    with st AtGet have "s' = s\<lparr>probes := (probes s)[k := AtSend (code = StatusOK)]\<rparr>"
      by (simp add: performCheck_sig_def)
    then show ?thesis using remaining_move [OF k, of "AtSend (code = StatusOK)" f] AtGet by simp
  qed
next
  case AtSendErr
  with st have "send n \<lparr>Success = False\<rparr> k s = Some s'" by (simp add: performCheck_sig_def)
  then show ?thesis using AtSendErr np by (intro remaining_send [OF k]) simp_all
next
  case (AtSelect success)
  with st show ?thesis by (simp add: performCheck_sig_def)
next
  case (AtSend success)
  with st have "send n \<lparr>Success = success\<rparr> k s = Some s'" by (simp add: performCheck_sig_def)
  then show ?thesis using AtSend np by (intro remaining_send [OF k]) simp_all
next
  case (AtDone sent cb)
  with st have "wg_done k sent cb s = Some s'" by (simp add: performCheck_sig_def)
  then show ?thesis using AtDone np by (intro remaining_exit [OF k]) simp_all
next
  case (Exited sent cb)
  with st show ?thesis by (simp add: performCheck_sig_def)
next
  case Unwound
  with st np show ?thesis by (auto simp: performCheck_sig_def remaining_def)
qed

lemma remaining_sig_orch:
  assumes "runTests_sig n s = Some s'" "\<not> panicked s"
  shows "remaining (orch_rem_sig n) s' < remaining (orch_rem_sig n) s"
proof (cases "orch s")
  case (Loop i)
  show ?thesis
  proof (cases "i < n")
    case True
    then have "n - i = Suc (n - Suc i)" by simp
    with assms Loop True show ?thesis
      by (auto simp: runTests_sig_def remaining_def)
  next
    case False
    with assms Loop show ?thesis by (auto simp: runTests_sig_def remaining_def)
  qed
next
  case (Finished r)
  with assms show ?thesis by (simp add: runTests_sig_def)
qed (use assms in \<open>auto simp: runTests_sig_def remaining_def close_results_def collect_def
      split: if_splits\<close>)

lemma remaining_sig_step:
  assumes "step_sig n net e s = Some s'"
  shows "remaining (orch_rem_sig n) s' + (if is_prog e then 1 else 0)
         \<le> remaining (orch_rem_sig n) s"
proof (cases e)
  case Orch
  with assms show ?thesis
    using remaining_sig_orch [of n s s'] by (auto simp: step_sig_def split: if_splits)
next
  case (Probe k)
  with assms show ?thesis
    using remaining_sig_probe [of n net k s s' "orch_rem_sig n"]
    by (auto simp: step_sig_def split: if_splits)
next
  case Cancel
  with assms show ?thesis by (auto simp: step_sig_def remaining_def split: if_splits)
next
  case Signal
  with assms show ?thesis by (auto simp: step_sig_def remaining_def split: if_splits)
qed

lemma run_sig_bound:
  assumes "run (step_sig n net) es (init c) = Some s"
  shows "length (filter is_prog es) \<le> 7 * n + 5"
proof -
  have "remaining (orch_rem_sig n) s + length (filter is_prog es)
        \<le> remaining (orch_rem_sig n) (init c)"
    using assms
      run_remaining [of "step_sig n net" "remaining (orch_rem_sig n)" es "init c" s]
      remaining_sig_step [of n net]
    by blast
  then show ?thesis by (simp add: remaining_def init_def)
qed

subsection \<open>Capacity of the channel and reported values\<close>

lemma orch_ok_ctx_length: "orch_ok_ctx n s \<Longrightarrow> length (probes s) \<le> n"
  by (auto simp: orch_ok_ctx_def split: opc.splits)

lemma orch_ok_sig_length: "orch_ok_sig n s \<Longrightarrow> length (probes s) \<le> n"
  by (auto simp: orch_ok_sig_def split: opc.splits)

lemma orch_ok_ctx_open: "orch_ok_ctx n s \<Longrightarrow> \<not> chan_closed s \<Longrightarrow> delivered s = chan_buf s"
  by (auto simp: orch_ok_ctx_def delivered_def split: opc.splits)

lemma orch_ok_sig_open: "orch_ok_sig n s \<Longrightarrow> \<not> chan_closed s \<Longrightarrow> delivered s = chan_buf s"
  by (auto simp: orch_ok_sig_def delivered_def split: opc.splits)

lemma at_send_unsent: "at_send p \<Longrightarrow> sent_of p = None"
  by (cases p) simp_all

lemma send_room:
  assumes sy: "sync pok s" and len: "length (probes s) \<le> n"
    and del: "\<not> chan_closed s \<Longrightarrow> delivered s = chan_buf s"
  shows "length (emitted (probes s)) \<le> n"
    and "\<not> chan_closed s \<Longrightarrow> length (chan_buf s) = length (emitted (probes s))"
    and "k < length (probes s) \<Longrightarrow> at_send (probes s ! k) \<Longrightarrow> send n r k s \<noteq> None"
proof -
  show "length (emitted (probes s)) \<le> n"
    using len emitted_length [of "probes s"] by simp
  show eq: "\<not> chan_closed s \<Longrightarrow> length (chan_buf s) = length (emitted (probes s))"
    using sy del by (metis sync_def size_mset)
  show "send n r k s \<noteq> None" if k: "k < length (probes s)" and at: "at_send (probes s ! k)"
  proof (cases "chan_closed s")
    case True
    then show ?thesis by (simp add: send_def unwind_def)
  next
    case False
    have "length (emitted (probes s)) < length (probes s)"
      using k at by (intro emitted_less [of k]) (simp_all add: at_send_unsent)
    then have "length (chan_buf s) < n" using eq [OF False] len by simp
    then show ?thesis using False by (simp add: send_def)
  qed
qed



subsection \<open>The summary line\<close>







subsection \<open>The second listing under a context cancelled from the start\<close>

lemma all_set_update:
  assumes "\<forall>p \<in> set ps. Q p" "Q q"
  shows "\<forall>p \<in> set (ps[k := q]). Q p"
  using assms set_update_subset_insert [of ps k q] by auto

lemma cancelled_ctx_single:
  "cancelled_ctx n net s \<Longrightarrow> k < length (probes s) \<Longrightarrow> k = 0"
  by (auto simp: cancelled_ctx_def split: opc.splits)

lemma cancelled_ctx_move:
  assumes "cancelled_ctx n net s" "quiet net p"
  shows "cancelled_ctx n net (s\<lparr>probes := (probes s)[k := p]\<rparr>)"
  using assms all_set_update [of "probes s" "quiet net" p k]
  by (auto simp: cancelled_ctx_def split: opc.splits)

lemma cancelled_ctx_updates [simp]:
  "cancelled_ctx n net (s\<lparr>panicked := b\<rparr>) = cancelled_ctx n net s"
  "cancelled_ctx n net (s\<lparr>stop := b\<rparr>) = cancelled_ctx n net s"
  "cancelled_ctx n net (s\<lparr>wg := w\<rparr>) = cancelled_ctx n net s"
  "cancelled_ctx n net (s\<lparr>chan_buf := cs\<rparr>) = cancelled_ctx n net s"
  by (simp_all add: cancelled_ctx_def split: opc.splits)

lemma cancelled_ctx_probe:
  assumes st: "performCheck_ctx n net k s = Some s'" and k: "k < length (probes s)"
    and c: "cancelled_ctx n net s"
  shows "cancelled_ctx n net s'"
proof -
  have k0: "k = 0" using c k by (rule cancelled_ctx_single)
  have q: "quiet net (probes s ! k)" using c k by (simp add: cancelled_ctx_def)
  have cd: "ctx_done s" using c by (simp add: cancelled_ctx_def)
  have mv: "\<And>p. quiet net p \<Longrightarrow> cancelled_ctx n net (s\<lparr>probes := (probes s)[k := p]\<rparr>)"
    using c by (rule cancelled_ctx_move)
  show ?thesis
  proof (cases "probes s ! k")
    case AtGet
    show ?thesis
    proof (cases "net k")
      case TransportError
      with st AtGet have "s' = s\<lparr>probes := (probes s)[k := AtSendErr]\<rparr>"
        by (simp add: performCheck_ctx_def)
      then show ?thesis using mv [of AtSendErr] TransportError k0 by simp
    next
      case (Response code)
      with st AtGet have "s' = s\<lparr>probes := (probes s)[k := AtSelect (code = StatusOK)]\<rparr>"
        by (simp add: performCheck_ctx_def)
      then show ?thesis using mv [of "AtSelect (code = StatusOK)"] by simp
    qed
  next
    case AtSendErr
    then have e: "net 0 = TransportError" using q by simp
    show ?thesis
    proof (cases "chan_closed s")
      case True
      with st AtSendErr have "s' = s\<lparr>panicked := True\<rparr>
          \<or> s' = s\<lparr>probes := (probes s)[k := Unwound]\<rparr>\<lparr>wg := wg s - 1\<rparr>"
        by (auto simp: performCheck_ctx_def send_def unwind_def split: if_splits)
      then show ?thesis using c mv [of Unwound] by auto
    next
      case False
      with st AtSendErr have "s' = s\<lparr>chan_buf := chan_buf s @ [\<lparr>Success = False\<rparr>],
          probes := (probes s)[k := AtDone (Some \<lparr>Success = False\<rparr>) False]\<rparr>"
        by (simp add: performCheck_ctx_def send_def split: if_splits)
      then have "s' = s\<lparr>probes := (probes s)[k := AtDone (Some \<lparr>Success = False\<rparr>) False]\<rparr>
          \<lparr>chan_buf := chan_buf s @ [\<lparr>Success = False\<rparr>]\<rparr>"
        by simp
      then show ?thesis using mv [of "AtDone (Some \<lparr>Success = False\<rparr>) False"] e by simp
    qed
  next
    case (AtSelect success)
    with st cd have "s' = s\<lparr>probes := (probes s)[k := AtDone None True]\<rparr>"
      by (simp add: performCheck_ctx_def)
    then show ?thesis using mv [of "AtDone None True"] by simp
  next
    case (AtSend success)
    with q show ?thesis by simp
  next
    case (AtDone sent cb)
    show ?thesis
    proof (cases "wg s = 0")
      case True
      with st AtDone have "s' = s\<lparr>panicked := True\<rparr>"
        by (simp add: performCheck_ctx_def wg_done_def)
      then show ?thesis using c by simp
    next
      case False
      with st AtDone have "s' = s\<lparr>wg := wg s - 1, probes := (probes s)[k := Exited sent cb]\<rparr>"
        by (simp add: performCheck_ctx_def wg_done_def)
      then have "s' = s\<lparr>probes := (probes s)[k := Exited sent cb]\<rparr>\<lparr>wg := wg s - 1\<rparr>"
        by simp
      then show ?thesis using mv [of "Exited sent cb"] q AtDone by simp
    qed
  next
    case (Exited sent cb)
    with st show ?thesis by (simp add: performCheck_ctx_def)
  next
    case Unwound
    with st have "s' = s\<lparr>panicked := True\<rparr>" by (simp add: performCheck_ctx_def)
    then show ?thesis using c by simp
  qed
qed

lemma cancelled_ctx_orch:
  assumes "runTests_ctx n s = Some s'" "cancelled_ctx n net s"
  shows "cancelled_ctx n net s'"
  using assms
  by (cases "orch s")
     (auto simp: runTests_ctx_def cancelled_ctx_def close_results_def collect_def
      split: if_splits)

lemma cancelled_ctx_step:
  assumes "step_ctx n net e s = Some s'" "cancelled_ctx n net s"
  shows "cancelled_ctx n net s'"
proof (cases e)
  case Orch
  with assms show ?thesis by (auto simp: step_ctx_def split: if_splits intro: cancelled_ctx_orch)
next
  case (Probe k)
  with assms show ?thesis by (auto simp: step_ctx_def split: if_splits intro: cancelled_ctx_probe)
next
  case Cancel
  with assms show ?thesis
    by (auto simp: step_ctx_def cancelled_ctx_def split: if_splits opc.splits)
next
  case Signal
  with assms show ?thesis by (auto simp: step_ctx_def split: if_splits)
qed

lemma cancelled_ctx_run:
  "run (step_ctx n net) es (init True) = Some s \<Longrightarrow> cancelled_ctx n net s"
  using run_invariant [of "step_ctx n net" "cancelled_ctx n net" es "init True" s]
    cancelled_ctx_step [of n net]
  by (auto simp: cancelled_ctx_def init_def)

lemma emitted_none: "\<forall>p \<in> set ps. sent_of p = None \<Longrightarrow> emitted ps = []"
  by (induction ps) auto

lemma quiet_unsent: "quiet net p \<Longrightarrow> net 0 \<noteq> TransportError \<Longrightarrow> sent_of p = None"
  by (cases p) auto

subsection \<open>A cancelled probe of the second listing drops its response\<close>

lemma performCheck_ctx_frame:
  assumes "performCheck_ctx n net j s = Some s'"
  shows "ctx_done s' = ctx_done s" and "length (probes s') = length (probes s)"
    and "i \<noteq> j \<Longrightarrow> probes s' ! i = probes s ! i"
  using assms
  by (cases "probes s ! j";
      auto simp: performCheck_ctx_def send_def unwind_def wg_done_def
        split: if_splits http_result.splits)+

lemma runTests_ctx_frame:
  assumes "runTests_ctx n s = Some s'" "k < length (probes s)"
  shows "ctx_done s' = ctx_done s" and "k < length (probes s')"
    and "probes s' ! k = probes s ! k"
  using assms
  by (cases "orch s";
      auto simp: runTests_ctx_def close_results_def collect_def nth_append split: if_splits)+

lemma discards_self:
  assumes st: "performCheck_ctx n net k s = Some s'" and k: "k < length (probes s)"
    and d: "discards (probes s ! k)" and c: "ctx_done s" and r: "net k = Response code"
  shows "discards (probes s' ! k)"
proof (cases "probes s ! k")
  case AtGet
  with st r have "s' = s\<lparr>probes := (probes s)[k := AtSelect (code = StatusOK)]\<rparr>"
    by (simp add: performCheck_ctx_def)
  then show ?thesis using k by simp
next
  case AtSendErr
  with d show ?thesis by simp
next
  case (AtSelect success)
  with st c have "s' = s\<lparr>probes := (probes s)[k := AtDone None True]\<rparr>"
    by (simp add: performCheck_ctx_def)
  then show ?thesis using k by simp
next
  case (AtSend success)
  with d show ?thesis by simp
next
  case (AtDone sent cb)
  with st d k show ?thesis
    by (auto simp: performCheck_ctx_def wg_done_def split: if_splits)
next
  case (Exited sent cb)
  with st show ?thesis by (simp add: performCheck_ctx_def)
next
  case Unwound
  with d show ?thesis by simp
qed

lemma discards_step:
  assumes st: "step_ctx n net e s = Some s'"
    and P: "ctx_done s \<and> k < length (probes s) \<and> discards (probes s ! k)"
    and r: "net k = Response code"
  shows "ctx_done s' \<and> k < length (probes s') \<and> discards (probes s' ! k)"
proof (cases e)
  case Orch
  with st have "runTests_ctx n s = Some s'" by (simp add: step_ctx_def split: if_splits)
  then show ?thesis using P runTests_ctx_frame [of n s s' k] by simp
next
  case (Probe j)
  with st have j: "performCheck_ctx n net j s = Some s'"
    by (simp add: step_ctx_def split: if_splits)
  show ?thesis
  proof (cases "j = k")
    case True
    then show ?thesis
      using P r j discards_self [of n net k s s' code] performCheck_ctx_frame(1,2) [OF j]
      by simp
  next
    case False
    then show ?thesis
      using P performCheck_ctx_frame(1,2) [OF j] performCheck_ctx_frame(3) [OF j, of k]
      by simp
  qed
next
  case Cancel
  with st P show ?thesis by (auto simp: step_ctx_def split: if_splits)
next
  case Signal
  with st P show ?thesis by (auto simp: step_ctx_def split: if_splits)
qed

lemma discards_run:
  assumes "net k = Response code"
  shows "run (step_ctx n net) es s = Some s' \<Longrightarrow>
    ctx_done s \<and> k < length (probes s) \<and> discards (probes s ! k) \<Longrightarrow>
    ctx_done s' \<and> k < length (probes s') \<and> discards (probes s' ! k)"
proof (induction es arbitrary: s)
  case Nil
  then show ?case by simp
next
  case (Cons e es)
  then obtain s1 where 1: "step_ctx n net e s = Some s1"
    and 2: "run (step_ctx n net) es s1 = Some s'"
    by (auto split: option.splits)
  have "ctx_done s1 \<and> k < length (probes s1) \<and> discards (probes s1 ! k)"
    using 1 Cons.prems(2) assms by (rule discards_step)
  with 2 show ?case by (rule Cons.IH)
qed

lemma discards_cases:
  "discards p \<longleftrightarrow>
     p = AtGet \<or> (\<exists>success. p = AtSelect success) \<or> p = AtDone None True \<or> p = Exited None True"
  by (cases p) auto

lemma delivered_at_prefix: "prefix (delivered_at pc b) (delivered_at pc (b @ [r]))"
proof (cases pc)
  case (Finished r)
  then show ?thesis by (cases r) simp_all
qed simp_all

lemma delivered_step_ctx:
  assumes "step_ctx n net e s = Some s'"
  shows "prefix (delivered s) (delivered s')"
proof (cases e)
  case Orch
  with assms have "runTests_ctx n s = Some s'" by (simp add: step_ctx_def split: if_splits)
  then show ?thesis
    by (cases "orch s")
       (auto simp: runTests_ctx_def close_results_def collect_def delivered_def
        split: if_splits)
next
  case (Probe j)
  with assms have "performCheck_ctx n net j s = Some s'"
    by (simp add: step_ctx_def split: if_splits)
  then show ?thesis
    by (cases "probes s ! j")
       (auto simp: performCheck_ctx_def send_def unwind_def wg_done_def delivered_def
        delivered_at_prefix split: if_splits http_result.splits)
next
  case Cancel
  with assms show ?thesis by (auto simp: step_ctx_def split: if_splits)
next
  case Signal
  with assms show ?thesis by (auto simp: step_ctx_def split: if_splits)
qed

lemma delivered_run_ctx:
  "run (step_ctx n net) es s = Some s' \<Longrightarrow> prefix (delivered s) (delivered s')"
proof (induction es arbitrary: s)
  case Nil
  then show ?case by simp
next
  case (Cons e es)
  then obtain s1 where 1: "step_ctx n net e s = Some s1"
    and 2: "run (step_ctx n net) es s1 = Some s'"
    by (auto split: option.splits)
  have "prefix (delivered s) (delivered s1)" using 1 by (rule delivered_step_ctx)
  moreover have "prefix (delivered s1) (delivered s')" using 2 by (rule Cons.IH)
  ultimately show ?case by (rule prefix_order.trans)
qed

subsection \<open>Reading the JSON document back\<close>

lemma strip_prefix_append [simp]: "strip_prefix p (p @ s) = Some s"
  by (induction p) auto

lemma parse_bool_marshal [simp]: "parse_bool (marshal_bool b @ s) = Some (b, s)"
  by (cases b) (simp_all add: parse_bool_def marshal_bool_def)

lemma parse_CheckResult_marshal [simp]:
  "parse_CheckResult (marshal_CheckResult r @ s) = Some (r, s)"
proof -
  have "strip_prefix ''{\"success\":'' (marshal_CheckResult r @ s)
        = Some (marshal_bool (Success r) @ ''}'' @ s)"
    unfolding marshal_CheckResult_def append_assoc by (rule strip_prefix_append)
  moreover have "strip_prefix ''}'' (''}'' @ s) = Some s" by (rule strip_prefix_append)
  ultimately show ?thesis by (simp add: parse_CheckResult_def)
qed


lemma join_Cons: "join sep (x # xs) = x @ concat (map (\<lambda>y. sep @ y) xs)"
  by (induction xs arbitrary: x) auto

lemma filter_join: "filter P (join sep xs) = join (filter P sep) (map (filter P) xs)"
  by (induction sep xs rule: join.induct) auto

lemma parse_more_marshal:
  "length rs < fuel \<Longrightarrow>
   parse_more fuel (concat (map (\<lambda>r. '','' @ marshal_CheckResult r) rs) @ '']'' @ s)
   = Some (rs, s)"
proof (induction rs arbitrary: fuel)
  case Nil
  then obtain f where "fuel = Suc f" by (cases fuel) auto
  then show ?case by simp
next
  case (Cons r rs)
  then obtain f where f: "fuel = Suc f" and l: "length rs < f" by (cases fuel) auto
  have "parse_more f (concat (map (\<lambda>r. '','' @ marshal_CheckResult r) rs) @ '']'' @ s)
        = Some (rs, s)"
    using l by (rule Cons.IH)
  then show ?case using f by simp
qed

lemma length_tail_items:
  "length rs \<le> length (concat (map (\<lambda>r. '','' @ marshal_CheckResult r) rs) @ s)"
  by (induction rs) auto

lemma marshal_CheckResult_hd: "strip_prefix '']'' (marshal_CheckResult r @ s) = None"
  by (simp add: marshal_CheckResult_def)

lemma parse_array_marshal:
  "parse_array (''['' @ join '','' (map marshal_CheckResult rs) @ '']'' @ s) = Some (rs, s)"
proof (cases rs)
  case Nil
  then show ?thesis by (simp add: parse_array_def)
next
  case (Cons r rs')
  let ?tail = "concat (map (\<lambda>r. '','' @ marshal_CheckResult r) rs') @ '']'' @ s"
  have a: "''['' @ join '','' (map marshal_CheckResult rs) @ '']'' @ s
           = ''['' @ (marshal_CheckResult r @ ?tail)"
    using Cons by (simp add: join_Cons comp_def)
  have 1: "strip_prefix ''['' (''['' @ (marshal_CheckResult r @ ?tail))
           = Some (marshal_CheckResult r @ ?tail)"
    by (rule strip_prefix_append)
  have 2: "strip_prefix '']'' (marshal_CheckResult r @ ?tail) = None"
    by (rule marshal_CheckResult_hd)
  have 3: "parse_CheckResult (marshal_CheckResult r @ ?tail) = Some (r, ?tail)"
    by (rule parse_CheckResult_marshal)
  have "length rs' < Suc (length ?tail)"
    using length_tail_items [of rs' "'']'' @ s"] by simp
  then have 4: "parse_more (Suc (length ?tail)) ?tail = Some (rs', s)"
    by (rule parse_more_marshal)
  show ?thesis
    unfolding parse_array_def a 1
    by (simp only: 2 3 4 option.case prod.case Cons)
qed

lemma Unmarshal_compact:
  assumes "skip_space doc = Marshal t"
  shows "Unmarshal doc = Some t"
proof -
  have "strip_prefix ''{\"results\":'' (Marshal t)
        = Some (''['' @ join '','' (map marshal_CheckResult (Results t)) @ '']'' @ ''}'')"
    unfolding Marshal_def by simp
  then show ?thesis
    using assms parse_array_marshal [of "Results t" "''}''"]
    by (simp add: Unmarshal_def)
qed

lemma skip_space_simps [simp]:
  "skip_space [] = []"
  "skip_space (c # cs) = (if is_space c then skip_space cs else c # skip_space cs)"
  "skip_space (xs @ ys) = skip_space xs @ skip_space ys"
  by (simp_all add: skip_space_def)

lemma skip_space_join: "skip_space (join sep xs) = join (skip_space sep) (map skip_space xs)"
  by (simp add: skip_space_def [abs_def] filter_join)

lemma skip_space_marshal_CheckResult: "skip_space \<circ> marshal_CheckResult = marshal_CheckResult"
  by (rule ext) (simp add: marshal_CheckResult_def marshal_bool_def is_space_def)

lemma skip_space_indent_CheckResult: "skip_space \<circ> indent_CheckResult = marshal_CheckResult"
  by (rule ext)
     (simp add: indent_CheckResult_def marshal_CheckResult_def marshal_bool_def is_space_def
        nl_def)

lemma skip_space_Marshal: "skip_space (Marshal t) = Marshal t"
  by (simp add: Marshal_def skip_space_join skip_space_marshal_CheckResult is_space_def)

lemma skip_space_MarshalIndent: "skip_space (MarshalIndent t) = Marshal t"
  by (simp add: MarshalIndent_def Marshal_def skip_space_join skip_space_indent_CheckResult
      is_space_def nl_def)

subsection \<open>The second listing closes the channel after the barrier and returns\<close>

lemma runTests_ctx_close_after_wait:
  assumes "run (step_ctx n net) es (init c) = Some s"
  shows "\<not> panicked s"
    and "chan_closed s \<Longrightarrow> \<forall>k < length (probes s). \<exists>sent cb. probes s ! k = Exited sent cb"
proof -
  have inv: "inv_ctx n net s" using assms by (rule inv_ctx_run)
  then show "\<not> panicked s" by (simp add: inv_ctx_def)
  assume "chan_closed s"
  then have "wg s = 0" using inv orch_ok_ctx_busy(1) [of n s] by (auto simp: inv_ctx_def)
  moreover have sy: "sync (probe_ok_ctx net) s" using inv by (simp add: inv_ctx_def)
  ultimately show "\<forall>k < length (probes s). \<exists>sent cb. probes s ! k = Exited sent cb"
    using all_exited [OF sy _ ctx_no_unwound [OF sy]] by blast
qed

lemma runTests_ctx_returns:
  assumes "run (step_ctx n net) es (init c) = Some s"
  shows "length (filter is_prog es) \<le> 7 * n + 5"
    and "quiescent (step_ctx n net) s \<Longrightarrow>
         \<exists>t. orch s = Finished (Some t)
           \<and> (\<forall>k < length (probes s). \<exists>sent cb. probes s ! k = Exited sent cb)"
proof -
  show "length (filter is_prog es) \<le> 7 * n + 5" using assms by (rule run_ctx_bound)
  have inv: "inv_ctx n net s" using assms by (rule inv_ctx_run)
  assume "quiescent (step_ctx n net) s"
  then obtain t where t: "orch s = Finished (Some t)" using ctx_progress [OF inv] by blast
  then show "\<exists>t. orch s = Finished (Some t)
           \<and> (\<forall>k < length (probes s). \<exists>sent cb. probes s ! k = Exited sent cb)"
    using inv_ctx_finished(2) [OF inv t] by blast
qed

section \<open>The claims\<close>

text \<open>
  C1. No probe sends on the results channel after it has been closed, and the channel
  is closed only after the wait barrier. The first listing breaks this: its cancellation
  branch closes the channel at line 62 and waits at line 63. With one check whose
  request is still in flight when the signal is read, the channel gets closed while the
  goroutine is alive (the counter of the wait group is 1, first state below), and the
  goroutine's send at line 43 then hits the closed channel and panics, which ends the
  process (second state). The second listing waits before it closes, and there no
  execution panics (\<open>runTests_ctx_close_after_wait\<close>).
\<close>

theorem runTests_sig_send_on_closed:
  "run (step_sig 1 (\<lambda>k. Response 200))
     [Orch, Signal, Orch, Orch, Orch, Probe 0] (init False)
   = Some \<lparr>orch = CancelWait, probes = [AtSend True], chan_buf = [], chan_closed = True,
           wg = 1, ctx_done = False, stop = False, panicked = False\<rparr>
   \<and> run (step_sig 1 (\<lambda>k. Response 200))
     [Orch, Signal, Orch, Orch, Orch, Probe 0, Probe 0, Probe 0] (init False)
   = Some \<lparr>orch = CancelWait, probes = [Unwound], chan_buf = [], chan_closed = True,
           wg = 0, ctx_done = False, stop = False, panicked = True\<rparr>"
  by (simp add: step_defs)

text \<open>
  C2. For every \<open>numChecks\<close> and every interval, if the cancellation signal never
  fires, \<open>runTests\<close> returns a \<open>TestResult\<close> with exactly \<open>numChecks\<close> results. The
  interval only delays the loop and is no part of the state. In both listings an
  execution without the cancelling event (\<open>Cancel\<close> for the context, \<open>Signal\<close> for the
  channel \<open>stop\<close>) takes at most \<open>7 * numChecks + 5\<close> steps of the program, and once no
  step is possible \<open>runTests\<close> has finished with \<open>numChecks\<close> results. In the first
  listing, whose \<open>runTests\<close> returns nothing, this is the \<open>TestResult\<close> it builds at lines
  73-79.
\<close>

theorem runTests_undisturbed_length:
  "(run (step_ctx n net) es (init False) = Some s \<and> Cancel \<notin> set es \<longrightarrow>
      length (filter is_prog es) \<le> 7 * n + 5 \<and>
      (quiescent (step_ctx n net) s \<longrightarrow>
         (\<exists>t. orch s = Finished (Some t) \<and> length (Results t) = n)))
   \<and> (run (step_sig n net) es (init c) = Some s \<and> Signal \<notin> set es \<longrightarrow>
      length (filter is_prog es) \<le> 7 * n + 5 \<and>
      (quiescent (step_sig n net) s \<longrightarrow>
         (\<exists>t. orch s = Finished (Some t) \<and> length (Results t) = n)))"
proof (intro conjI impI)
  assume "run (step_ctx n net) es (init False) = Some s \<and> Cancel \<notin> set es"
  then show "length (filter is_prog es) \<le> 7 * n + 5" using run_ctx_bound by blast
next
  assume a: "run (step_ctx n net) es (init False) = Some s \<and> Cancel \<notin> set es"
    and q: "quiescent (step_ctx n net) s"
  then obtain t where t: "orch s = Finished (Some t)"
    and m: "mset (Results t)
            = mset (map (\<lambda>k. \<lparr>Success = (net k = Response StatusOK)\<rparr>) [0..<n])"
    using runTests_ctx_undisturbed [of n net es s] by blast
  have "size (mset (Results t)) = n" unfolding m by simp
  then show "\<exists>t. orch s = Finished (Some t) \<and> length (Results t) = n" using t by simp
next
  assume "run (step_sig n net) es (init c) = Some s \<and> Signal \<notin> set es"
  then show "length (filter is_prog es) \<le> 7 * n + 5" using run_sig_bound by blast
next
  assume a: "run (step_sig n net) es (init c) = Some s \<and> Signal \<notin> set es"
    and q: "quiescent (step_sig n net) s"
  then obtain t where t: "orch s = Finished (Some t)"
    and m: "mset (Results t)
            = mset (map (\<lambda>k. \<lparr>Success = (net k = Response StatusOK)\<rparr>) [0..<n])"
    using runTests_sig_undisturbed [of n net es c s] by blast
  have "size (mset (Results t)) = n" unfolding m by simp
  then show "\<exists>t. orch s = Finished (Some t) \<and> length (Results t) = n" using t by simp
qed

theorem runTests_undisturbed_length_witness:
  "run (step_ctx 2 (\<lambda>k. if k = 0 then Response 200 else TransportError))
     [Orch, Orch, Probe 0, Probe 0, Probe 0, Probe 0, Orch, Orch, Orch, Probe 1, Orch, Orch,
      Probe 1, Probe 1, Orch, Orch, Orch] (init False)
   = Some \<lparr>orch = Finished (Some \<lparr>Results = [\<lparr>Success = True\<rparr>, \<lparr>Success = False\<rparr>]\<rparr>),
           probes = [Exited (Some \<lparr>Success = True\<rparr>) False,
                     Exited (Some \<lparr>Success = False\<rparr>) False],
           chan_buf = [], chan_closed = True, wg = 0, ctx_done = False, stop = False,
           panicked = False\<rparr>
   \<and> length (Results \<lparr>Results = [\<lparr>Success = True\<rparr>, \<lparr>Success = False\<rparr>]\<rparr>) = 2
   \<and> run (step_sig 2 (\<lambda>k. if k = 0 then Response 200 else TransportError))
     [Orch, Probe 0, Orch, Orch, Orch, Orch, Probe 0, Probe 1, Probe 1, Orch, Orch, Probe 0,
      Probe 1, Orch, Orch, Orch] (init True)
   = Some \<lparr>orch = Finished (Some \<lparr>Results = [\<lparr>Success = True\<rparr>, \<lparr>Success = False\<rparr>]\<rparr>),
           probes = [Exited (Some \<lparr>Success = True\<rparr>) False,
                     Exited (Some \<lparr>Success = False\<rparr>) False],
           chan_buf = [], chan_closed = True, wg = 0, ctx_done = True, stop = False,
           panicked = False\<rparr>"
proof -
  let ?net = "\<lambda>k::nat. if k = 0 then Response 200 else TransportError"
  let ?es = "[Orch, Orch, Probe 0, Probe 0, Probe 0, Probe 0, Orch, Orch, Orch, Probe 1, Orch,
      Orch, Probe 1, Probe 1, Orch, Orch, Orch]"
  let ?fs = "[Orch, Probe 0, Orch, Orch, Orch, Orch, Probe 0, Probe 1, Probe 1, Orch, Orch,
      Probe 0, Probe 1, Orch, Orch, Orch]"
  let ?t = "\<lparr>Results = [\<lparr>Success = True\<rparr>, \<lparr>Success = False\<rparr>]\<rparr>"
  let ?s = "\<lparr>orch = Finished (Some ?t),
           probes = [Exited (Some \<lparr>Success = True\<rparr>) False,
                     Exited (Some \<lparr>Success = False\<rparr>) False],
           chan_buf = [], chan_closed = True, wg = 0, ctx_done = False, stop = False,
           panicked = False\<rparr>"
  have r1: "run (step_ctx 2 ?net) ?es (init False) = Some ?s"
    by (simp add: step_defs)
  have r2: "run (step_sig 2 ?net) ?fs (init True) = Some (?s\<lparr>ctx_done := True\<rparr>)"
    by (simp add: step_defs)
  have q1: "quiescent (step_ctx 2 ?net) ?s"
    by (simp add: quiescent_def step_defs)
  have q2: "quiescent (step_sig 2 ?net) (?s\<lparr>ctx_done := True\<rparr>)"
    by (simp add: quiescent_def step_defs)
  have "\<exists>t. orch ?s = Finished (Some t) \<and> length (Results t) = 2"
    using runTests_undisturbed_length [of 2 ?net ?es ?s] r1 q1 by simp
  moreover have "\<exists>t. orch (?s\<lparr>ctx_done := True\<rparr>) = Finished (Some t) \<and> length (Results t) = 2"
    using runTests_undisturbed_length [of 2 ?net ?fs "?s\<lparr>ctx_done := True\<rparr>" True] r2 q2
    by simp
  ultimately show ?thesis using r1 r2 by simp
qed



text \<open>
  C4. \<open>runTests\<close> always returns, and only after every probe it launched has delivered
  or safely discarded its result. In the first listing the early \<open>close\<close> of line 62
  breaks this. Two checks are asked for, the first request fails, the signal arrives
  during the sleep, and the goroutine's send at line 36 panics on the closed channel.
  The deferred \<open>wg.Done()\<close> of the panicking goroutine releases the wait group. Either
  \<open>runTests\<close> then passes line 63 and returns, with the result of its probe neither
  delivered nor discarded (the channel is empty and the goroutine has panicked) and the
  process about to be ended by the panic (first state below); or the runtime ends the
  process first, and \<open>runTests\<close> never returns (second state). The second listing always
  returns, with every goroutine gone (\<open>runTests_ctx_returns\<close>).
\<close>

theorem runTests_sig_returns_after_panic:
  "run (step_sig 2 (\<lambda>k. TransportError))
     [Orch, Probe 0, Signal, Orch, Orch, Orch, Probe 0, Orch] (init False)
   = Some \<lparr>orch = Finished None, probes = [Unwound], chan_buf = [], chan_closed = True,
           wg = 0, ctx_done = False, stop = False, panicked = False\<rparr>
   \<and> run (step_sig 2 (\<lambda>k. TransportError))
     [Orch, Probe 0, Signal, Orch, Orch, Orch, Probe 0, Probe 0] (init False)
   = Some \<lparr>orch = CancelWait, probes = [Unwound], chan_buf = [], chan_closed = True,
           wg = 0, ctx_done = False, stop = False, panicked = True\<rparr>
   \<and> step_sig 2 (\<lambda>k. TransportError) Orch
       \<lparr>orch = CancelWait, probes = [Unwound], chan_buf = [], chan_closed = True,
        wg = 0, ctx_done = False, stop = False, panicked = True\<rparr> = None"
  by (simp add: step_defs)

text \<open>
  C5. If the cancellation has fired before any probe is launched, \<open>runTests\<close> launches
  no probe and returns at once with an empty collection. The second listing launches
  the first probe at line 184 before it looks at the context at line 187, and a probe
  whose request fails writes its result at line 156 without looking at the context:
  with one check, a context cancelled from the start and a failing request, one probe
  runs and \<open>runTests\<close> returns one result.
\<close>

theorem runTests_ctx_cancelled_first_counterexample:
  "run (step_ctx 1 (\<lambda>k. TransportError))
     [Orch, Orch, Probe 0, Probe 0, Probe 0, Orch, Orch, Orch] (init True)
   = Some \<lparr>orch = Finished (Some \<lparr>Results = [\<lparr>Success = False\<rparr>]\<rparr>),
           probes = [Exited (Some \<lparr>Success = False\<rparr>) False], chan_buf = [],
           chan_closed = True, wg = 0, ctx_done = True, stop = False, panicked = False\<rparr>"
  by (simp add: step_defs)

text \<open>
  C5, amended to what the second listing does by design: with the context cancelled
  from the start it
  never sleeps, launches exactly one probe when \<open>numChecks\<close> is positive and none when it
  is 0, takes a bounded number of steps, and once no step is possible it has returned;
  when the request of that probe gets a response, the returned collection is empty.
\<close>

theorem runTests_ctx_cancelled_first:
  assumes "run (step_ctx n net) es (init True) = Some s"
  shows "length (probes s) \<le> 1 \<and> (\<forall>i. orch s \<noteq> Sleep i)
       \<and> length (filter is_prog es) \<le> 7 * n + 5
       \<and> (quiescent (step_ctx n net) s \<longrightarrow>
            (\<exists>t. orch s = Finished (Some t) \<and> length (probes s) = min n 1
               \<and> (net 0 \<noteq> TransportError \<longrightarrow> Results t = [])))"
proof -
  have c: "cancelled_ctx n net s" using assms by (rule cancelled_ctx_run)
  have inv: "inv_ctx n net s" using assms by (rule inv_ctx_run)
  have 1: "length (probes s) \<le> 1" and 2: "\<forall>i. orch s \<noteq> Sleep i"
    using c by (auto simp: cancelled_ctx_def split: opc.splits)
  have 3: "length (filter is_prog es) \<le> 7 * n + 5" using assms by (rule run_ctx_bound)
  have 4: "\<exists>t. orch s = Finished (Some t) \<and> length (probes s) = min n 1
               \<and> (net 0 \<noteq> TransportError \<longrightarrow> Results t = [])"
    if q: "quiescent (step_ctx n net) s"
  proof -
    obtain t where t: "orch s = Finished (Some t)" using ctx_progress [OF inv q] by blast
    have len: "length (probes s) = min n 1" using c t by (simp add: cancelled_ctx_def)
    have "Results t = []" if "net 0 \<noteq> TransportError"
    proof -
      have "\<forall>p \<in> set (probes s). sent_of p = None"
        using c that quiet_unsent [of net] by (auto simp: cancelled_ctx_def)
      then have "emitted (probes s) = []" by (rule emitted_none)
      then show ?thesis using inv_ctx_finished(1) [OF inv t] by simp
    qed
    then show ?thesis using t len by blast
  qed
  show ?thesis using 1 2 3 4 by blast
qed

theorem runTests_ctx_cancelled_first_witness:
  "run (step_ctx 3 (\<lambda>k. Response 200))
     [Orch, Orch, Probe 0, Probe 0, Probe 0, Orch, Orch, Orch] (init True)
   = Some \<lparr>orch = Finished (Some \<lparr>Results = []\<rparr>), probes = [Exited None True], chan_buf = [],
           chan_closed = True, wg = 0, ctx_done = True, stop = False, panicked = False\<rparr>
   \<and> length [Exited None True] = min (3::nat) 1
   \<and> Results \<lparr>Results = []\<rparr> = []"
proof -
  let ?s = "\<lparr>orch = Finished (Some \<lparr>Results = []\<rparr>), probes = [Exited None True], chan_buf = [],
           chan_closed = True, wg = 0, ctx_done = True, stop = False, panicked = False\<rparr>"
  let ?es = "[Orch, Orch, Probe 0, Probe 0, Probe 0, Orch, Orch, Orch]"
  have r: "run (step_ctx 3 (\<lambda>k. Response 200)) ?es (init True) = Some ?s"
    by (simp add: step_defs)
  have q: "quiescent (step_ctx 3 (\<lambda>k. Response 200)) ?s"
    by (simp add: quiescent_def step_defs)
  have "\<exists>t. orch ?s = Finished (Some t) \<and> length (probes ?s) = min 3 1
      \<and> ((\<lambda>k. Response 200) (0::nat) \<noteq> TransportError \<longrightarrow> Results t = [])"
    using runTests_ctx_cancelled_first [OF r] q by blast
  then show ?thesis using r by simp
qed

text \<open>
  C6. With zero collected results the computation of the percentage is guarded against
  the division by zero, and either skips the print or prints a value that is not NaN.
  Neither listing has such a guard. In the second listing a run of ten checks whose
  context is cancelled from the start launches one probe, which discards its response,
  so \<open>runTests\<close> returns no result at all, and line 245 then prints NaN.
\<close>

theorem summary_zero_results_counterexample:
  "map_option (\<lambda>s. case orch s of Finished (Some t) \<Rightarrow> (Results t, summary_ctx t) | _ \<Rightarrow> ([], []))
     (run (step_ctx 10 (\<lambda>k. Response 200))
        [Orch, Orch, Probe 0, Probe 0, Probe 0, Orch, Orch, Orch] (init True))
   = Some ([], ''NaN%'' @ [CHR 0x0A])"
  by (simp add: step_defs summary_ctx_def successfulPercentage_ctx_def successfulCount_def
      percent_def format_2f_def)

text \<open>
  C6, amended to what the code does: for a \<open>TestResult\<close> without results the quotient
  of line
  244, and that of line 89 when \<open>numChecks\<close> is 0, is the floating-point value NaN; the
  division does not panic, and the summary line is printed with the text NaN. With at
  least one result the value is a finite number.
\<close>

theorem summary_zero_results:
  "(Results t = [] \<longrightarrow>
      successfulPercentage_ctx t = NaN \<and> summary_ctx t = ''NaN%'' @ [CHR 0x0A]
      \<and> successfulPercentage_sig 0 t = NaN \<and> summary_sig 0 t = ''NaN%'' @ [CHR 0x0A])
   \<and> (Results t \<noteq> [] \<longrightarrow> (\<exists>q. successfulPercentage_ctx t = Finite q))"
  by (simp add: summary_ctx_def summary_sig_def successfulPercentage_ctx_def
      successfulPercentage_sig_def successfulCount_def percent_def format_2f_def)

theorem summary_zero_results_witness:
  "Results \<lparr>Results = []\<rparr> = []
   \<and> summary_ctx \<lparr>Results = []\<rparr> = ''NaN%'' @ [CHR 0x0A]
   \<and> Results \<lparr>Results = [\<lparr>Success = True\<rparr>]\<rparr> \<noteq> []
   \<and> (\<exists>q. successfulPercentage_ctx \<lparr>Results = [\<lparr>Success = True\<rparr>]\<rparr> = Finite q)"
  using summary_zero_results [of "\<lparr>Results = []\<rparr>"]
    summary_zero_results [of "\<lparr>Results = [\<lparr>Success = True\<rparr>]\<rparr>"]
  by simp

text \<open>
  C7. Every probe whose network call returns after the cancellation has fired discards
  its result and closes the response body. In the second listing this fails for a call
  that returns an error: line 156 writes \<open>CheckResult{Success: false}\<close> without looking
  at the context. Here the context is cancelled while the request of the only probe is
  in flight; the request then fails and the probe writes its result to the channel.
\<close>

theorem performCheck_ctx_discards_counterexample:
  "run (step_ctx 1 (\<lambda>k. TransportError)) [Orch, Cancel, Probe 0, Probe 0] (init False)
   = Some \<lparr>orch = Select 0, probes = [AtDone (Some \<lparr>Success = False\<rparr>) False],
           chan_buf = [\<lparr>Success = False\<rparr>], chan_closed = False, wg = 1, ctx_done = True,
           stop = False, panicked = False\<rparr>"
  by (simp add: step_defs)

text \<open>
  C7, amended to what the second listing does by design: a probe whose request is in
  flight when the
  context is cancelled and then gets a response never writes to the channel. It is
  before its \<open>select\<close> or has taken the cancellation branch of lines 165-167, which
  closes the response body; and the values delivered before stay, in their order, a
  prefix of the delivered values.
\<close>

theorem performCheck_ctx_discards:
  assumes "ctx_done s1" and "k < length (probes s1)" and "probes s1 ! k = AtGet"
    and "net k = Response code" and "run (step_ctx n net) es s1 = Some s2"
  shows "sent_of (probes s2 ! k) = None
       \<and> (probes s2 ! k = AtGet \<or> (\<exists>success. probes s2 ! k = AtSelect success)
          \<or> probes s2 ! k = AtDone None True \<or> probes s2 ! k = Exited None True)
       \<and> prefix (delivered s1) (delivered s2)"
proof -
  have "discards (probes s2 ! k)"
    using discards_run [OF assms(4,5)] assms(1-3) by simp
  then have "probes s2 ! k = AtGet \<or> (\<exists>success. probes s2 ! k = AtSelect success)
          \<or> probes s2 ! k = AtDone None True \<or> probes s2 ! k = Exited None True"
    by (simp add: discards_cases)
  moreover from this have "sent_of (probes s2 ! k) = None" by auto
  moreover have "prefix (delivered s1) (delivered s2)"
    using assms(5) by (rule delivered_run_ctx)
  ultimately show ?thesis by blast
qed

theorem performCheck_ctx_discards_witness:
  "run (step_ctx 2 (\<lambda>k. Response 200)) [Orch, Probe 0, Probe 0, Probe 0, Orch, Orch, Orch, Cancel]
     (init False)
   = Some \<lparr>orch = Select 1, probes = [AtDone (Some \<lparr>Success = True\<rparr>) False, AtGet],
           chan_buf = [\<lparr>Success = True\<rparr>], chan_closed = False, wg = 2, ctx_done = True,
           stop = False, panicked = False\<rparr>
   \<and> run (step_ctx 2 (\<lambda>k. Response 200)) [Probe 1, Probe 1, Probe 1, Probe 0]
       \<lparr>orch = Select 1, probes = [AtDone (Some \<lparr>Success = True\<rparr>) False, AtGet],
           chan_buf = [\<lparr>Success = True\<rparr>], chan_closed = False, wg = 2, ctx_done = True,
           stop = False, panicked = False\<rparr>
   = Some \<lparr>orch = Select 1, probes = [Exited (Some \<lparr>Success = True\<rparr>) False, Exited None True],
           chan_buf = [\<lparr>Success = True\<rparr>], chan_closed = False, wg = 0, ctx_done = True,
           stop = False, panicked = False\<rparr>
   \<and> sent_of (Exited None True) = None
   \<and> prefix [\<lparr>Success = True\<rparr>] [\<lparr>Success = True\<rparr>]"
proof -
  let ?s1 = "\<lparr>orch = Select 1, probes = [AtDone (Some \<lparr>Success = True\<rparr>) False, AtGet],
           chan_buf = [\<lparr>Success = True\<rparr>], chan_closed = False, wg = 2, ctx_done = True,
           stop = False, panicked = False\<rparr>"
  let ?s2 = "\<lparr>orch = Select 1,
           probes = [Exited (Some \<lparr>Success = True\<rparr>) False, Exited None True],
           chan_buf = [\<lparr>Success = True\<rparr>], chan_closed = False, wg = 0, ctx_done = True,
           stop = False, panicked = False\<rparr>"
  have r1: "run (step_ctx 2 (\<lambda>k. Response 200))
      [Orch, Probe 0, Probe 0, Probe 0, Orch, Orch, Orch, Cancel] (init False) = Some ?s1"
    by (simp add: step_defs)
  have r2: "run (step_ctx 2 (\<lambda>k. Response 200)) [Probe 1, Probe 1, Probe 1, Probe 0] ?s1
      = Some ?s2"
    by (simp add: step_defs)
  have "sent_of (probes ?s2 ! 1) = None \<and> prefix (delivered ?s1) (delivered ?s2)"
    using performCheck_ctx_discards [of ?s1 1 "\<lambda>k. Response 200" 200 2
        "[Probe 1, Probe 1, Probe 1, Probe 0]" ?s2] r2
    by simp
  then show ?thesis using r1 r2 by (simp add: delivered_def)
qed



text \<open>
  C9. Writing a \<open>TestResult\<close> of k results with j successes to the output format and
  reading it back gives k results with j successes. The writers are those of lines 93
  and 248; the reader is the one modelled from the spec. Reading back gives the very
  same \<open>TestResult\<close>, hence the same number of results and of successes.
\<close>

theorem Marshal_roundtrip:
  "Unmarshal (Marshal t) = Some t \<and> Unmarshal (MarshalIndent t) = Some t
   \<and> map_option (\<lambda>u. (length (Results u), successfulCount u)) (Unmarshal (Marshal t))
     = Some (length (Results t), successfulCount t)
   \<and> map_option (\<lambda>u. (length (Results u), successfulCount u)) (Unmarshal (MarshalIndent t))
     = Some (length (Results t), successfulCount t)"
proof -
  have "Unmarshal (Marshal t) = Some t" using skip_space_Marshal by (rule Unmarshal_compact)
  moreover have "Unmarshal (MarshalIndent t) = Some t"
    using skip_space_MarshalIndent by (rule Unmarshal_compact)
  ultimately show ?thesis by simp
qed

text \<open>
  C10. The channel has capacity \<open>numChecks\<close>, at most \<open>numChecks\<close> probes are launched and
  each writes at most once, so the writes never exceed the capacity and no send blocks:
  in every reachable state of both listings, for every probe that stands before one of
  its send statements the send is enabled (\<open>send\<close> is \<open>None\<close> exactly when it blocks).
\<close>

theorem results_never_full:
  assumes "run (step_ctx n net) es (init c) = Some s \<or> run (step_sig n net) es (init c) = Some s"
  shows "length (probes s) \<le> n \<and> length (emitted (probes s)) \<le> n
       \<and> (\<not> chan_closed s \<longrightarrow> length (chan_buf s) = length (emitted (probes s)))
       \<and> (\<forall>k < length (probes s). at_send (probes s ! k) \<longrightarrow> send n r k s \<noteq> None)"
proof -
  have "(orch_ok_ctx n s \<and> sync (probe_ok_ctx net) s)
      \<or> (orch_ok_sig n s \<and> sync (probe_ok_sig net) s)"
    using assms inv_ctx_run [of n net es c s] inv_sig_run [of n net es c s]
    by (auto simp: inv_ctx_def inv_sig_def)
  then obtain pok where sy: "sync pok s" and len: "length (probes s) \<le> n"
    and del: "\<not> chan_closed s \<Longrightarrow> delivered s = chan_buf s"
    using orch_ok_ctx_length orch_ok_sig_length orch_ok_ctx_open orch_ok_sig_open by blast
  show ?thesis using len send_room [OF sy len del] by blast
qed

theorem results_never_full_witness:
  "run (step_ctx 1 (\<lambda>k. Response 200)) [Orch, Probe 0, Probe 0] (init False)
   = Some \<lparr>orch = Select 0, probes = [AtSend True], chan_buf = [], chan_closed = False,
           wg = 1, ctx_done = False, stop = False, panicked = False\<rparr>
   \<and> send 1 \<lparr>Success = True\<rparr> 0
        \<lparr>orch = Select 0, probes = [AtSend True], chan_buf = [], chan_closed = False,
           wg = 1, ctx_done = False, stop = False, panicked = False\<rparr> \<noteq> None"
proof -
  let ?s = "\<lparr>orch = Select 0, probes = [AtSend True], chan_buf = [], chan_closed = False,
           wg = 1, ctx_done = False, stop = False, panicked = False\<rparr>"
  have r: "run (step_ctx 1 (\<lambda>k. Response 200)) [Orch, Probe 0, Probe 0] (init False) = Some ?s"
    by (simp add: step_defs)
  then show ?thesis
    using results_never_full [of 1 "\<lambda>k. Response 200" "[Orch, Probe 0, Probe 0]" False ?s
        "\<lparr>Success = True\<rparr>"]
    by simp
qed

end
